theory Spec2Isabelle
  imports Complex_Main "HOL-Library.Word" "HOL-Library.AList"
begin

section \<open>The ring buffer of the playback worklet (audio-playback-worklet.js)\<close>

text \<open>
  \<^verbatim>\<open>class RingBuffer\<close> keeps \<^verbatim>\<open>capacity\<close>, a \<^verbatim>\<open>Float32Array\<close> of that length, two
  indices and the count of unread samples. The buffer never computes with a sample, it
  only stores and copies it, so the sample type is a parameter; \<open>0\<close> is the content of
  a freshly allocated \<^verbatim>\<open>Float32Array\<close> and the silence written by \<^verbatim>\<open>pull\<close>.
  Sizes and indices are \<open>nat\<close>: the constructor's argument is an array length.
  A store into a typed array at an index beyond its length is ignored, which is what
  \<open>xs[i := v]\<close> does.
\<close>

record 'a RingBuffer =
  capacity :: nat
  buffer :: "'a list"
  readIndex :: nat
  writeIndex :: nat
  availableData :: nat

definition RingBuffer_new :: "nat \<Rightarrow> 'a::zero RingBuffer" where
  "RingBuffer_new initialCapacity =
     \<lparr>capacity = initialCapacity, buffer = replicate initialCapacity 0,
      readIndex = 0, writeIndex = 0, availableData = 0\<rparr>"

text \<open>\<^verbatim>\<open>grow()\<close>: a buffer of twice the capacity, the unread samples copied to its front.\<close>

definition grow :: "'a::zero RingBuffer \<Rightarrow> 'a RingBuffer" where
  "grow rb =
     (let newCapacity = capacity rb * 2;
          newBuffer = fold (\<lambda>i nb. nb[i := buffer rb ! ((readIndex rb + i) mod capacity rb)])
                        [0..<availableData rb] (replicate newCapacity 0)
      in rb\<lparr>buffer := newBuffer, readIndex := 0, writeIndex := availableData rb,
            capacity := newCapacity\<rparr>)"

text \<open>
  The loop \<^verbatim>\<open>while (this.availableData + len > this.capacity) this.grow()\<close> of
  \<^verbatim>\<open>push\<close>. With capacity 0 doubling never helps and the loop does not return; that
  is the value \<open>None\<close>.
\<close>

partial_function (option) grow_loop :: "nat \<Rightarrow> 'a::zero RingBuffer \<Rightarrow> 'a RingBuffer option" where
  "grow_loop len rb =
     (if availableData rb + len > capacity rb then grow_loop len (grow rb) else Some rb)"

definition push_sample :: "'a \<Rightarrow> 'a RingBuffer \<Rightarrow> 'a RingBuffer" where
  "push_sample x rb =
     rb\<lparr>buffer := (buffer rb)[writeIndex rb := x],
        writeIndex := (writeIndex rb + 1) mod capacity rb,
        availableData := availableData rb + 1\<rparr>"

definition push :: "'a::zero list \<Rightarrow> 'a RingBuffer \<Rightarrow> 'a RingBuffer option" where
  "push data rb =
     (let len = length data in
      case grow_loop len rb of
        None \<Rightarrow> None
      | Some rb1 \<Rightarrow> Some (fold (\<lambda>i r. push_sample (data ! i) r) [0..<len] rb1))"

text \<open>
  \<^verbatim>\<open>pull(outputBuffer)\<close> overwrites the caller's array and returns whether a real
  sample was copied. The model returns the array after the call, that flag, and the
  buffer after the call.
\<close>

definition pull_sample :: "nat \<Rightarrow> 'a list \<times> 'a RingBuffer \<Rightarrow> 'a list \<times> 'a RingBuffer" where
  "pull_sample i p =
     (case p of (outputBuffer, rb) \<Rightarrow>
        (outputBuffer[i := buffer rb ! readIndex rb],
         rb\<lparr>readIndex := (readIndex rb + 1) mod capacity rb\<rparr>))"

definition pull :: "'a::zero list \<Rightarrow> 'a RingBuffer \<Rightarrow> 'a list \<times> bool \<times> 'a RingBuffer" where
  "pull outputBuffer rb =
     (let len = length outputBuffer;
          available = min len (availableData rb);
          (out1, rb1) = fold pull_sample [0..<available] (outputBuffer, rb);
          out2 = fold (\<lambda>i ob. ob[i := 0]) [available..<len] out1
      in (out2, 0 < available, rb1\<lparr>availableData := availableData rb1 - available\<rparr>))"

definition available :: "'a RingBuffer \<Rightarrow> nat" where
  "available rb = availableData rb"

definition clear :: "'a RingBuffer \<Rightarrow> 'a RingBuffer" where
  "clear rb = rb\<lparr>readIndex := 0, writeIndex := 0, availableData := 0\<rparr>"


text \<open>
  The constructor leaves the array as long as \<^verbatim>\<open>capacity\<close> and the read index inside
  it; every method keeps that (lemmas \<open>grow_wf\<close>, \<open>push_wf\<close>, \<open>pull_wf\<close> below), so no
  read of \<^verbatim>\<open>this.buffer\<close> is ever out of range and no \<^verbatim>\<open>%\<close> has a zero divisor.
  \<open>contents\<close> lists the unread samples, oldest first.
\<close>

definition rb_wf :: "'a RingBuffer \<Rightarrow> bool" where
  "rb_wf rb \<longleftrightarrow>
     0 < capacity rb \<and> length (buffer rb) = capacity rb \<and> readIndex rb < capacity rb \<and>
     availableData rb \<le> capacity rb \<and>
     writeIndex rb = (readIndex rb + availableData rb) mod capacity rb"

definition contents :: "'a RingBuffer \<Rightarrow> 'a list" where
  "contents rb =
     map (\<lambda>i. buffer rb ! ((readIndex rb + i) mod capacity rb)) [0..<availableData rb]"

text \<open>
  The predicate of the data model. JavaScript's \<^verbatim>\<open>x % 0\<close> is \<^verbatim>\<open>NaN\<close>, never equal
  to an index, whereas \<open>x mod 0 = x\<close> on \<open>nat\<close>; the first conjunct keeps the two apart.
\<close>

definition rb_invariant :: "'a RingBuffer \<Rightarrow> bool" where
  "rb_invariant rb \<longleftrightarrow>
     0 < capacity rb \<and> availableData rb \<le> capacity rb \<and>
     writeIndex rb = (readIndex rb + availableData rb) mod capacity rb"

text \<open>
  A client of the buffer: a sequence of \<^verbatim>\<open>push\<close> and \<^verbatim>\<open>pull\<close> calls. For each
  \<^verbatim>\<open>pull\<close> the run records the real samples of the returned array, that is its first
  \<^verbatim>\<open>min(len, available())\<close> elements, the rest being the padding.
\<close>

datatype 'a rb_call = Push "'a list" | Pull "'a list"

fun rb_run :: "'a::zero rb_call list \<Rightarrow> 'a RingBuffer \<Rightarrow> ('a list list \<times> 'a RingBuffer) option" where
  "rb_run [] rb = Some ([], rb)"
| "rb_run (Push data # cs) rb =
     (case push data rb of None \<Rightarrow> None | Some rb1 \<Rightarrow> rb_run cs rb1)"
| "rb_run (Pull outputBuffer # cs) rb =
     (case pull outputBuffer rb of (out, _, rb1) \<Rightarrow>
        (case rb_run cs rb1 of
           None \<Rightarrow> None
         | Some (reals, rb2) \<Rightarrow>
             Some (take (min (length outputBuffer) (available rb)) out # reals, rb2)))"

fun pushed :: "'a rb_call list \<Rightarrow> 'a list" where
  "pushed [] = []"
| "pushed (Push data # cs) = data @ pushed cs"
| "pushed (Pull outputBuffer # cs) = pushed cs"

section \<open>The playback processor (audio-playback-worklet.js)\<close>

text \<open>
  Messages to the processor's port carry a \<^verbatim>\<open>type\<close> and, for audio, the samples; a
  message of any other type falls through the \<^verbatim>\<open>if\<close> chain. The processor posts one
  kind of message, \<^verbatim>\<open>{ type: "ended" }\<close>.
\<close>

datatype 'a worklet_msg = Audio "'a list" | Clear | StreamComplete | Stop | Unknown

datatype port_msg = Ended

record 'a AudioPlaybackProcessor =
  ringBuffer :: "'a RingBuffer"
  isPlaying :: bool
  streamComplete :: bool

definition AudioPlaybackProcessor_new :: "'a::zero AudioPlaybackProcessor" where
  "AudioPlaybackProcessor_new =
     \<lparr>ringBuffer = RingBuffer_new (24000 * 30), isPlaying = False, streamComplete = False\<rparr>"

text \<open>\<^verbatim>\<open>this.port.onmessage\<close>; \<open>None\<close> when \<^verbatim>\<open>push\<close> does not return.\<close>

fun onmessage :: "'a::zero worklet_msg \<Rightarrow> 'a AudioPlaybackProcessor \<Rightarrow> 'a AudioPlaybackProcessor option" where
  "onmessage (Audio samples) p =
     (case push samples (ringBuffer p) of
        None \<Rightarrow> None
      | Some rb \<Rightarrow> Some (p\<lparr>ringBuffer := rb, isPlaying := True\<rparr>))"
| "onmessage Clear p =
     Some (p\<lparr>ringBuffer := clear (ringBuffer p), isPlaying := False, streamComplete := False\<rparr>)"
| "onmessage StreamComplete p = Some (p\<lparr>streamComplete := True\<rparr>)"
| "onmessage Stop p = Some (p\<lparr>isPlaying := False, streamComplete := False\<rparr>)"
| "onmessage Unknown p = Some p"

text \<open>
  \<^verbatim>\<open>process(inputs, outputs)\<close>: \<open>outputs\<close> is a list of outputs, each a list of channels.
  The model returns the outputs after the call, the messages posted during it and the
  processor after it (the JavaScript returns \<^verbatim>\<open>true\<close> on every path).
\<close>

definition process :: "'a::zero list list list \<Rightarrow> 'a AudioPlaybackProcessor \<Rightarrow>
    'a list list list \<times> port_msg list \<times> 'a AudioPlaybackProcessor" where
  "process outputs p =
     (case outputs of
        [] \<Rightarrow> (outputs, [], p)
      | output # others \<Rightarrow>
          (case output of
             [] \<Rightarrow> (outputs, [], p)
           | channel # channels \<Rightarrow>
               if isPlaying p then
                 (case pull channel (ringBuffer p) of (channel1, _, rb) \<Rightarrow>
                    let p1 = p\<lparr>ringBuffer := rb\<rparr> in
                    if streamComplete p1 \<and> available (ringBuffer p1) = 0
                    then ((channel1 # channels) # others, [Ended],
                          p1\<lparr>isPlaying := False, streamComplete := False\<rparr>)
                    else ((channel1 # channels) # others, [], p1))
               else ((replicate (length channel) 0 # channels) # others, [], p)))"

text \<open>
  The step relation of the processor: each step handles one port message or renders one
  quantum. A run collects the messages posted, step by step.
\<close>

datatype 'a proc_event = Message "'a worklet_msg" | Render "'a list list list"

fun step :: "'a::zero proc_event \<Rightarrow> 'a AudioPlaybackProcessor \<Rightarrow>
    (port_msg list \<times> 'a AudioPlaybackProcessor) option" where
  "step (Message m) p = (case onmessage m p of None \<Rightarrow> None | Some p1 \<Rightarrow> Some ([], p1))"
| "step (Render outputs) p = (case process outputs p of (_, msgs, p1) \<Rightarrow> Some (msgs, p1))"

fun run :: "'a::zero proc_event list \<Rightarrow> 'a AudioPlaybackProcessor \<Rightarrow>
    (port_msg list \<times> 'a AudioPlaybackProcessor) option" where
  "run [] p = Some ([], p)"
| "run (e # es) p =
     (case step e p of
        None \<Rightarrow> None
      | Some (msgs, p1) \<Rightarrow>
          (case run es p1 of None \<Rightarrow> None | Some (rest, p2) \<Rightarrow> Some (msgs @ rest, p2)))"

definition completions :: "'a proc_event list \<Rightarrow> nat" where
  "completions es = length (filter (\<lambda>e. e = Message StreamComplete) es)"

section \<open>The PCM decoder (audio-utils)\<close>

text \<open>
  What the JavaScript can throw. \<open>InvalidCharacterError\<close> is the \<^verbatim>\<open>DOMException\<close> of
  \<^verbatim>\<open>atob\<close>; \<open>Error\<close> carries the message of \<^verbatim>\<open>new Error(msg)\<close>. Only \<open>SyntaxError\<close>
  is an instance of \<^verbatim>\<open>SyntaxError\<close>.
\<close>

datatype js_error = SyntaxError | InvalidCharacterError | RangeError | Error string

text \<open>
  \<^verbatim>\<open>atob\<close> belongs to the browser, not to the repository. It is defined here the way
  the HTML standard defines it (forgiving-base64 decode): ASCII whitespace is removed;
  if the length is then a multiple of 4, one or two trailing \<^verbatim>\<open>=\<close> are removed; a length
  of 1 modulo 4 or a character outside the base64 alphabet fails; every 4 characters
  give 3 bytes, and 2 or 3 left-over characters give 1 or 2 bytes, their unused low
  bits dropped. The result is a string of characters with codes below 256, here the
  list of those codes.
\<close>

definition base64_value :: "char \<Rightarrow> nat option" where
  "base64_value c =
     (let n = (of_char c :: nat) in
      if 65 \<le> n \<and> n \<le> 90 then Some (n - 65)
      else if 97 \<le> n \<and> n \<le> 122 then Some (n - 97 + 26)
      else if 48 \<le> n \<and> n \<le> 57 then Some (n - 48 + 52)
      else if n = 43 then Some 62
      else if n = 47 then Some 63
      else None)"

definition ascii_whitespace :: "char \<Rightarrow> bool" where
  "ascii_whitespace c \<longleftrightarrow> (of_char c :: nat) \<in> {9, 10, 12, 13, 32}"

fun decode_sextets :: "nat list \<Rightarrow> nat list" where
  "decode_sextets (a # b # c # d # rest) =
     (let n = a * 262144 + b * 4096 + c * 64 + d
      in n div 65536 # (n div 256) mod 256 # n mod 256 # decode_sextets rest)"
| "decode_sextets [a, b, c] =
     (let n = (a * 4096 + b * 64 + c) div 4 in [n div 256, n mod 256])"
| "decode_sextets [a, b] = [(a * 64 + b) div 16]"
| "decode_sextets _ = []"

definition strip_padding :: "string \<Rightarrow> string" where
  "strip_padding d =
     (if length d mod 4 = 0 \<and> d \<noteq> [] \<and> last d = CHR ''=''
      then (let d1 = butlast d in if d1 \<noteq> [] \<and> last d1 = CHR ''='' then butlast d1 else d1)
      else d)"

definition atob :: "string \<Rightarrow> js_error + nat list" where
  "atob s =
     (let d = strip_padding (filter (\<lambda>c. \<not> ascii_whitespace c) s) in
      if length d mod 4 = 1 then Inl InvalidCharacterError
      else case those (map base64_value d) of
             None \<Rightarrow> Inl InvalidCharacterError
           | Some sextets \<Rightarrow> Inr (decode_sextets sextets))"

text \<open>
  \<^verbatim>\<open>new Int16Array(bytes.buffer)\<close> views the bytes two by two and throws a \<^verbatim>\<open>RangeError\<close>
  when their number is odd. The view has the byte order of the platform; it is taken
  to be little-endian, low byte first, as the payload format is.
\<close>

fun int16_view :: "8 word list \<Rightarrow> 16 word list" where
  "int16_view (lo # hi # rest) = (ucast lo + 256 * ucast hi) # int16_view rest"
| "int16_view _ = []"

definition Int16Array_of_buffer :: "8 word list \<Rightarrow> js_error + 16 word list" where
  "Int16Array_of_buffer bytes =
     (if length bytes mod 2 \<noteq> 0 then Inl RangeError else Inr (int16_view bytes))"

text \<open>
  \<^verbatim>\<open>decodePCM16ToFloat32\<close>. A signed 16-bit value divided by 32768 is a multiple of
  \<open>2\<^sup>-\<^sup>1\<^sup>5\<close> in \<open>[-1, 1)\<close>; the division is exact in double precision and the
  quotient is stored in the \<^verbatim>\<open>Float32Array\<close> unchanged (24 bits of mantissa), so the
  samples are the rational numbers themselves.
\<close>

definition decodePCM16ToFloat32 :: "string \<Rightarrow> js_error + rat list" where
  "decodePCM16ToFloat32 base64Audio =
     (case atob base64Audio of
        Inl e \<Rightarrow> Inl e
      | Inr raw \<Rightarrow>
          (let bytes = map (\<lambda>code. (of_nat code :: 8 word)) raw in
           case Int16Array_of_buffer bytes of
             Inl e \<Rightarrow> Inl e
           | Inr pcm16 \<Rightarrow> Inr (map (\<lambda>v. of_int (sint v) / 32768) pcm16)))"

section \<open>The sequence buffer and the playback hook (useAudioPlayback)\<close>

text \<open>
  \<^verbatim>\<open>pending\<close> is a \<^verbatim>\<open>Map<number, string[]>\<close>: a list of entries with distinct keys, in
  insertion order. \<^verbatim>\<open>has\<close> and \<^verbatim>\<open>get\<close> are \<open>map_of\<close>, \<^verbatim>\<open>set\<close> is \<open>AList.update\<close> and
  \<^verbatim>\<open>delete\<close> is \<open>AList.delete\<close>. Sequence numbers are integers.
\<close>

record SequenceBuffer =
  pending :: "(int \<times> string list) list"
  nextSeq :: int

definition SequenceBuffer_new :: SequenceBuffer where
  "SequenceBuffer_new = \<lparr>pending = [], nextSeq = 0\<rparr>"

text \<open>The loop \<^verbatim>\<open>while (this.pending.has(this.nextSeq))\<close>; each turn removes an entry.\<close>

function drain :: "SequenceBuffer \<Rightarrow> string list \<Rightarrow> string list \<times> SequenceBuffer" where
  "drain sb ready =
     (case map_of (pending sb) (nextSeq sb) of
        None \<Rightarrow> (ready, sb)
      | Some chunks \<Rightarrow>
          drain (sb\<lparr>pending := AList.delete (nextSeq sb) (pending sb), nextSeq := nextSeq sb + 1\<rparr>)
            (ready @ chunks))"
  by pat_completeness auto
termination
proof (relation "measure (\<lambda>(sb, ready). length (pending sb))")
  show "wf (measure (\<lambda>(sb, ready). length (pending sb)))" by simp
next
  fix sb :: SequenceBuffer and ready chunks :: "string list"
  assume "map_of (pending sb) (nextSeq sb) = Some chunks"
  then have "(nextSeq sb, chunks) \<in> set (pending sb)"
    by (rule map_of_SomeD)
  then have "length (AList.delete (nextSeq sb) (pending sb)) < length (pending sb)"
    unfolding AList.delete_eq by (rule length_filter_less) simp
  then show "((sb\<lparr>pending := AList.delete (nextSeq sb) (pending sb), nextSeq := nextSeq sb + 1\<rparr>,
               ready @ chunks), (sb, ready)) \<in> measure (\<lambda>(sb, ready). length (pending sb))"
    by simp
qed


declare drain.simps [simp del]

text \<open>
  \<^verbatim>\<open>push(seq, data)\<close> stores the chunk under its sequence number, then drains. It returns
  the chunks that are ready and leaves the buffer changed. After \<^verbatim>\<open>set(seq, [])\<close> the key
  is present, so the second \<open>None\<close> is never taken.
\<close>

definition store_chunk :: "int \<Rightarrow> string \<Rightarrow> SequenceBuffer \<Rightarrow> SequenceBuffer" where
  "store_chunk seq data sb =
     sb\<lparr>pending :=
       (let p1 = (if map_of (pending sb) seq = None then AList.update seq [] (pending sb)
                  else pending sb)
        in case map_of p1 seq of
             None \<Rightarrow> p1
           | Some chunks \<Rightarrow> AList.update seq (chunks @ [data]) p1)\<rparr>"

definition SequenceBuffer_push :: "int \<Rightarrow> string \<Rightarrow> SequenceBuffer \<Rightarrow> string list \<times> SequenceBuffer" where
  "SequenceBuffer_push seq data sb = drain (store_chunk seq data sb) []"

definition SequenceBuffer_reset :: "SequenceBuffer \<Rightarrow> SequenceBuffer" where
  "SequenceBuffer_reset sb = sb\<lparr>pending := [], nextSeq := 0\<rparr>"

text \<open>A client of the sequence buffer: pushes one after the other, the released chunks concatenated.\<close>

fun push_all :: "(int \<times> string) list \<Rightarrow> SequenceBuffer \<Rightarrow> string list \<times> SequenceBuffer" where
  "push_all [] sb = ([], sb)"
| "push_all ((seq, data) # rest) sb =
     (case SequenceBuffer_push seq data sb of (ready, sb1) \<Rightarrow>
        (case push_all rest sb1 of (later, sb2) \<Rightarrow> (ready @ later, sb2)))"








text \<open>
  The state of the buffer after the fragments with the sequence numbers in \<open>S\<close> have been
  pushed once each, \<open>f i\<close> being the payload of fragment \<open>i\<close>: everything below
  \<^verbatim>\<open>nextSeq\<close> has arrived and been released, \<^verbatim>\<open>nextSeq\<close> itself has not arrived, and
  the later arrivals wait under their keys.
\<close>

definition sb_inv :: "(int \<Rightarrow> string) \<Rightarrow> int set \<Rightarrow> SequenceBuffer \<Rightarrow> bool" where
  "sb_inv f S sb \<longleftrightarrow>
     0 \<le> nextSeq sb \<and> {0..<nextSeq sb} \<subseteq> S \<and> nextSeq sb \<notin> S \<and>
     map_of (pending sb) = (\<lambda>i. if i \<in> S \<and> nextSeq sb < i then Some [f i] else None)"

text \<open>
  The hook's state: the React state, whether \<^verbatim>\<open>workletRef.current\<close> is set, the
  messages posted to the worklet's port (oldest first) and the sequence buffer. A
  function that can throw returns the state it leaves behind and the exception, if any.
\<close>

datatype PlaybackState = Idle | Playing | EndedState

record playback =
  pstate :: PlaybackState
  worklet :: bool
  posted :: "rat worklet_msg list"
  seqBuffer :: SequenceBuffer

definition playback_new :: playback where
  "playback_new = \<lparr>pstate = Idle, worklet = False, posted = [], seqBuffer = SequenceBuffer_new\<rparr>"

text \<open>\<^verbatim>\<open>init\<close>, when loading the worklet module succeeds.\<close>

definition init :: "playback \<Rightarrow> playback" where
  "init pb = pb\<lparr>worklet := True\<rparr>"

definition pushAudio :: "string \<Rightarrow> playback \<Rightarrow> playback \<times> js_error option" where
  "pushAudio base64Audio pb =
     (if \<not> worklet pb then (pb, None)
      else case decodePCM16ToFloat32 base64Audio of
             Inl e \<Rightarrow> (pb, Some e)
           | Inr samples \<Rightarrow> (pb\<lparr>posted := posted pb @ [Audio samples], pstate := Playing\<rparr>, None))"

fun post_chunks :: "string list \<Rightarrow> playback \<Rightarrow> playback \<times> js_error option" where
  "post_chunks [] pb = (pb, None)"
| "post_chunks (chunk # chunks) pb =
     (case decodePCM16ToFloat32 chunk of
        Inl e \<Rightarrow> (pb, Some e)
      | Inr samples \<Rightarrow> post_chunks chunks (pb\<lparr>posted := posted pb @ [Audio samples]\<rparr>))"

definition pushSequencedAudio :: "int \<Rightarrow> string \<Rightarrow> playback \<Rightarrow> playback \<times> js_error option" where
  "pushSequencedAudio seq base64Audio pb =
     (if \<not> worklet pb then (pb, None)
      else case SequenceBuffer_push seq base64Audio (seqBuffer pb) of (readyChunks, sb) \<Rightarrow>
        (case post_chunks readyChunks (pb\<lparr>seqBuffer := sb\<rparr>) of
           (pb1, Some e) \<Rightarrow> (pb1, Some e)
         | (pb1, None) \<Rightarrow>
             (if 0 < length readyChunks then pb1\<lparr>pstate := Playing\<rparr> else pb1, None)))"

definition signalComplete :: "playback \<Rightarrow> playback" where
  "signalComplete pb = (if worklet pb then pb\<lparr>posted := posted pb @ [StreamComplete]\<rparr> else pb)"

definition playback_clear :: "playback \<Rightarrow> playback" where
  "playback_clear pb =
     (let pb1 = (if worklet pb then pb\<lparr>posted := posted pb @ [Clear]\<rparr> else pb)
      in pb1\<lparr>seqBuffer := SequenceBuffer_reset (seqBuffer pb1), pstate := Idle\<rparr>)"

text \<open>
  A caller of \<^verbatim>\<open>pushSequencedAudio\<close> that pushes one fragment after the other, each call
  on its own (an exception of one call does not keep the next from being made), and the
  samples a chunk decodes to.
\<close>

fun pushSequencedAudio_all :: "(int \<times> string) list \<Rightarrow> playback \<Rightarrow> playback" where
  "pushSequencedAudio_all [] pb = pb"
| "pushSequencedAudio_all ((seq, base64Audio) # rest) pb =
     pushSequencedAudio_all rest (fst (pushSequencedAudio seq base64Audio pb))"

definition samples_of :: "string \<Rightarrow> rat list" where
  "samples_of chunk = (case decodePCM16ToFloat32 chunk of Inl e \<Rightarrow> [] | Inr samples \<Rightarrow> samples)"

section \<open>The stream orchestrator (useVoiceStream)\<close>

text \<open>
  An event is what \<^verbatim>\<open>JSON.parse\<close> returns for a record of the wire format: an object
  with a \<^verbatim>\<open>type\<close> and the fields the server writes, all strings, and possibly a
  \<^verbatim>\<open>seq\<close>. \<^verbatim>\<open>JSON.parse\<close> itself is a parameter \<open>parse\<close> of the functions below;
  \<open>None\<close> is its \<^verbatim>\<open>SyntaxError\<close>. The caller's callbacks are optional
  (\<^verbatim>\<open>callbacks.onError?.(e)\<close>): \<open>callbacks\<close> says which ones are given, and the state
  records each call made. Callbacks are taken not to throw.
\<close>

record sse_event =
  ev_type :: string
  ev_data :: string
  ev_seq :: "int option"
  ev_error :: string
  ev_transcript :: string

record callbacks =
  onUserTranscript :: bool
  onTranscript :: bool
  onComplete :: bool
  onError :: bool

datatype callback_call =
  OnUserTranscript string | OnTranscript string string | OnComplete string | OnError js_error

record stream_state =
  line_buffer :: string
  fullTranscript :: string
  playback_of :: playback
  calls :: "callback_call list"

definition call :: "bool \<Rightarrow> callback_call \<Rightarrow> stream_state \<Rightarrow> stream_state" where
  "call given c st = (if given then st\<lparr>calls := calls st @ [c]\<rparr> else st)"

text \<open>The \<^verbatim>\<open>switch (event.type)\<close>, with the exception it may throw.\<close>

definition dispatch :: "callbacks \<Rightarrow> sse_event \<Rightarrow> stream_state \<Rightarrow> stream_state \<times> js_error option" where
  "dispatch cb event st =
     (if ev_type event = ''user_transcript'' then
        (call (onUserTranscript cb) (OnUserTranscript (ev_data event)) st, None)
      else if ev_type event = ''transcript'' then
        (let st1 = st\<lparr>fullTranscript := fullTranscript st @ ev_data event\<rparr>
         in (call (onTranscript cb) (OnTranscript (ev_data event) (fullTranscript st1)) st1, None))
      else if ev_type event = ''audio'' then
        (case pushAudio (ev_data event) (playback_of st) of
           (pb, thrown) \<Rightarrow> (st\<lparr>playback_of := pb\<rparr>, thrown))
      else if ev_type event = ''done'' then
        (let st1 = st\<lparr>playback_of := signalComplete (playback_of st)\<rparr>
         in (call (onComplete cb) (OnComplete (fullTranscript st1)) st1, None))
      else if ev_type event = ''error'' then (st, Some (Error (ev_error event)))
      else (st, None))"

text \<open>The body of \<^verbatim>\<open>for (const line of lines)\<close>: the \<^verbatim>\<open>try\<close> block, then the \<^verbatim>\<open>catch\<close>.\<close>

definition try_line :: "(string \<Rightarrow> sse_event option) \<Rightarrow> callbacks \<Rightarrow> string \<Rightarrow> stream_state \<Rightarrow>
    stream_state \<times> js_error option" where
  "try_line parse cb line st =
     (case parse (drop 6 line) of
        None \<Rightarrow> (st, Some SyntaxError)
      | Some event \<Rightarrow> dispatch cb event st)"

definition startsWith :: "string \<Rightarrow> string \<Rightarrow> bool" where
  "startsWith s p \<longleftrightarrow> take (length p) s = p"

definition process_line :: "(string \<Rightarrow> sse_event option) \<Rightarrow> callbacks \<Rightarrow> string \<Rightarrow> stream_state \<Rightarrow>
    stream_state" where
  "process_line parse cb line st =
     (if \<not> startsWith line ''data: '' then st
      else case try_line parse cb line st of
             (st1, None) \<Rightarrow> st1
           | (st1, Some e) \<Rightarrow> (if e \<noteq> SyntaxError then call (onError cb) (OnError e) st1 else st1))"

text \<open>\<^verbatim>\<open>buffer.split("\n")\<close>: at least one part, the last one what follows the last newline.\<close>

fun split_lines :: "string \<Rightarrow> string list" where
  "split_lines [] = [[]]"
| "split_lines (c # cs) =
     (if c = CHR 0x0A then [] # split_lines cs
      else case split_lines cs of [] \<Rightarrow> [[c]] | l # ls \<Rightarrow> (c # l) # ls)"

text \<open>
  One turn of \<^verbatim>\<open>while (true)\<close> for a chunk of decoded text, and the loop over all chunks.
  \<open>stream_start\<close> is the state when the loop is entered: \<^verbatim>\<open>init\<close> and \<^verbatim>\<open>clear\<close> have run,
  the request has been answered with a body, the line buffer and the transcript are empty.
\<close>

definition process_chunk :: "(string \<Rightarrow> sse_event option) \<Rightarrow> callbacks \<Rightarrow> string \<Rightarrow> stream_state \<Rightarrow>
    stream_state" where
  "process_chunk parse cb chunk st =
     (let lines = split_lines (line_buffer st @ chunk)
      in fold (process_line parse cb) (butlast lines) (st\<lparr>line_buffer := last lines\<rparr>))"

definition stream_start :: "playback \<Rightarrow> stream_state" where
  "stream_start pb =
     \<lparr>line_buffer = [], fullTranscript = [], playback_of = playback_clear (init pb), calls = []\<rparr>"

definition streamVoiceResponse :: "(string \<Rightarrow> sse_event option) \<Rightarrow> callbacks \<Rightarrow> string list \<Rightarrow>
    playback \<Rightarrow> stream_state" where
  "streamVoiceResponse parse cb chunks pb = fold (process_chunk parse cb) chunks (stream_start pb)"

text \<open>
  The complete lines of a stream: the text of all chunks, split at newlines, without the
  unfinished rest after the last newline.
\<close>

definition stream_lines :: "string list \<Rightarrow> string list" where
  "stream_lines chunks = butlast (split_lines (concat chunks))"

text \<open>
  What one line of the stream adds to the messages posted to the worklet, read off the
  record alone: the decoded samples of an audio record, the completion signal of a
  \<^verbatim>\<open>done\<close> record, nothing otherwise.
\<close>

definition messages_of_line :: "(string \<Rightarrow> sse_event option) \<Rightarrow> string \<Rightarrow> rat worklet_msg list" where
  "messages_of_line parse line =
     (if \<not> startsWith line ''data: '' then []
      else case parse (drop 6 line) of
             None \<Rightarrow> []
           | Some event \<Rightarrow>
               if ev_type event = ''audio'' then
                 (case decodePCM16ToFloat32 (ev_data event) of
                    Inl e \<Rightarrow> []
                  | Inr samples \<Rightarrow> [Audio samples])
               else if ev_type event = ''done'' then [StreamComplete]
               else [])"

text \<open>
  Example records. \<open>example_parse\<close> gives the value of \<^verbatim>\<open>JSON.parse\<close> on the five record
  texts used in the examples of this development, with absent string fields empty; it
  is applied to no other text there.
\<close>

definition example_parse :: "string \<Rightarrow> sse_event option" where
  \<open>example_parse text =
     (if text = ''{"type":"error","error":"boom"}'' then
        Some \<lparr>ev_type = ''error'', ev_data = [], ev_seq = None, ev_error = ''boom'',
              ev_transcript = []\<rparr>
      else if text = ''{"type":"transcript","data":"hi"}'' then
        Some \<lparr>ev_type = ''transcript'', ev_data = ''hi'', ev_seq = None, ev_error = [],
              ev_transcript = []\<rparr>
      else if text = ''{"type":"audio","data":"AQA=","seq":1}'' then
        Some \<lparr>ev_type = ''audio'', ev_data = ''AQA='', ev_seq = Some 1, ev_error = [],
              ev_transcript = []\<rparr>
      else if text = ''{"type":"audio","data":"AgA=","seq":0}'' then
        Some \<lparr>ev_type = ''audio'', ev_data = ''AgA='', ev_seq = Some 0, ev_error = [],
              ev_transcript = []\<rparr>
      else if text = ''{"type":"audio","data":"AAAA"}'' then
        Some \<lparr>ev_type = ''audio'', ev_data = ''AAAA'', ev_seq = None, ev_error = [],
              ev_transcript = []\<rparr>
      else None)\<close>

definition all_callbacks :: callbacks where
  "all_callbacks = \<lparr>onUserTranscript = True, onTranscript = True, onComplete = True, onError = True\<rparr>"

definition example_error_line :: string where
  \<open>example_error_line = ''data: {"type":"error","error":"boom"}''\<close>

definition example_transcript_line :: string where
  \<open>example_transcript_line = ''data: {"type":"transcript","data":"hi"}''\<close>

definition example_audio_line_1 :: string where
  \<open>example_audio_line_1 = ''data: {"type":"audio","data":"AQA=","seq":1}''\<close>

definition example_audio_line_0 :: string where
  \<open>example_audio_line_0 = ''data: {"type":"audio","data":"AgA=","seq":0}''\<close>

definition example_bad_audio_line :: string where
  \<open>example_bad_audio_line = ''data: {"type":"audio","data":"AAAA"}''\<close>

text \<open>Streams of one chunk with two records each, every record ended by a blank line.\<close>

definition example_error_stream :: "string list" where
  "example_error_stream =
     [example_error_line @ [CHR 0x0A, CHR 0x0A] @ example_transcript_line @ [CHR 0x0A, CHR 0x0A]]"

definition example_audio_stream :: "string list" where
  "example_audio_stream =
     [example_audio_line_1 @ [CHR 0x0A, CHR 0x0A] @ example_audio_line_0 @ [CHR 0x0A, CHR 0x0A]]"

definition example_bad_audio_stream :: "string list" where
  "example_bad_audio_stream =
     [example_bad_audio_line @ [CHR 0x0A, CHR 0x0A] @ example_transcript_line @ [CHR 0x0A, CHR 0x0A]]"

section \<open>Executing the model\<close>

declare grow_loop.simps [code]

section \<open>Properties of the ring buffer\<close>


lemma length_fold_upd: "length (fold (\<lambda>i ob. ob[i := g i]) js ob) = length ob"
  by (induction js arbitrary: ob) simp_all

lemma nth_fold_upd:
  "j < length ob \<Longrightarrow>
   fold (\<lambda>i ob. ob[i := g i]) js ob ! j = (if j \<in> set js then g j else ob ! j)"
  by (induction js arbitrary: ob) (auto simp: length_fold_upd nth_list_update)

lemma fold_upd_upt:
  "n \<le> length nb \<Longrightarrow> fold (\<lambda>i nb. nb[i := f i]) [0..<n] nb = map f [0..<n] @ drop n nb"
  by (rule nth_equalityI) (auto simp: length_fold_upd nth_fold_upd nth_append)

lemma fold_zero_upt:
  "k \<le> length ob \<Longrightarrow>
   fold (\<lambda>i ob. ob[i := z]) [k..<length ob] ob = take k ob @ replicate (length ob - k) z"
  by (rule nth_equalityI) (auto simp: length_fold_upd nth_fold_upd nth_append)

lemma fold_index: "fold (\<lambda>i. g (data ! i)) [0..<length data] = fold g data"
proof -
  have "fold g data = fold g (map (nth data) [0..<length data])"
    by (simp add: map_nth)
  also have "\<dots> = fold (g \<circ> nth data) [0..<length data]"
    by (simp only: fold_map)
  finally show ?thesis by (simp add: comp_def)
qed

lemma grow_wf:
  assumes "rb_wf rb"
  shows "rb_wf (grow rb)" "contents (grow rb) = contents rb"
proof -
  have len: "availableData rb \<le> length (replicate (capacity rb * 2) (0::'a))"
    using assms by (simp add: rb_wf_def)
  note F = fold_upd_upt[OF len, of "\<lambda>i. buffer rb ! ((readIndex rb + i) mod capacity rb)"]
  show "rb_wf (grow rb)"
    using assms by (simp add: rb_wf_def grow_def Let_def F)
  show "contents (grow rb) = contents rb"
    using assms by (simp add: rb_wf_def grow_def Let_def F contents_def nth_append cong: map_cong)
qed

lemma grow_fields:
  "availableData (grow rb) = availableData rb" "capacity (grow rb) = capacity rb * 2"
  "readIndex (grow rb) = 0" "writeIndex (grow rb) = availableData rb"
  by (simp_all add: grow_def Let_def)

lemma grow_loop_rule:
  assumes "0 < capacity rb" and "P rb" and step: "\<And>r. P r \<Longrightarrow> 0 < capacity r \<Longrightarrow> P (grow r)"
  shows "\<exists>rb'. grow_loop len rb = Some rb' \<and> P rb' \<and> 0 < capacity rb' \<and>
           availableData rb' = availableData rb \<and> availableData rb' + len \<le> capacity rb'"
  using assms(1,2)
proof (induction "availableData rb + len - capacity rb" arbitrary: rb rule: less_induct)
  case less
  show ?case
  proof (cases "availableData rb + len > capacity rb")
    case False
    then show ?thesis using less.prems by (subst grow_loop.simps) simp
  next
    case True
    have "availableData (grow rb) + len - capacity (grow rb) < availableData rb + len - capacity rb"
      using True less.prems(1) by (simp add: grow_fields)
    moreover have "0 < capacity (grow rb)" "P (grow rb)"
      using less.prems step by (simp_all add: grow_fields)
    ultimately obtain rb' where "grow_loop len (grow rb) = Some rb'" "P rb'" "0 < capacity rb'"
      "availableData rb' = availableData (grow rb)" "availableData rb' + len \<le> capacity rb'"
      using less.hyps by blast
    then show ?thesis using True by (subst grow_loop.simps) (simp add: grow_fields)
  qed
qed

lemma mod_neq:
  fixes r i a c :: nat
  assumes "i < a" "a < c"
  shows "(r + i) mod c \<noteq> (r + a) mod c"
proof
  assume "(r + i) mod c = (r + a) mod c"
  then have "c dvd (r + a) - (r + i)"
    by (metis mod_eq_dvd_iff_nat add_le_cancel_left assms(1) less_imp_le)
  then have "c dvd a - i" by simp
  then show False using assms by (auto dest: dvd_imp_le)
qed

lemma push_sample_wf:
  assumes "rb_wf rb" "availableData rb < capacity rb"
  shows "rb_wf (push_sample x rb)" "contents (push_sample x rb) = contents rb @ [x]"
proof -
  show "rb_wf (push_sample x rb)"
    using assms by (simp add: rb_wf_def push_sample_def mod_Suc_eq)
  have w: "writeIndex rb = (readIndex rb + availableData rb) mod capacity rb"
    "writeIndex rb < length (buffer rb)"
    using assms by (simp_all add: rb_wf_def)
  have "map (\<lambda>i. (buffer rb)[writeIndex rb := x] ! ((readIndex rb + i) mod capacity rb))
          [0..<availableData rb] = contents rb"
    unfolding contents_def
  proof (rule map_cong[OF refl])
    fix i assume "i \<in> set [0..<availableData rb]"
    then have "(readIndex rb + i) mod capacity rb \<noteq> writeIndex rb"
      unfolding w(1) using mod_neq[OF _ assms(2)] by simp
    then show "(buffer rb)[writeIndex rb := x] ! ((readIndex rb + i) mod capacity rb) =
        buffer rb ! ((readIndex rb + i) mod capacity rb)"
      by simp
  qed
  moreover have "(buffer rb)[writeIndex rb := x] ! ((readIndex rb + availableData rb) mod capacity rb) = x"
    using w by simp
  ultimately show "contents (push_sample x rb) = contents rb @ [x]"
    by (simp add: push_sample_def contents_def)
qed

lemma push_fold_wf:
  "rb_wf rb \<Longrightarrow> availableData rb + length xs \<le> capacity rb \<Longrightarrow>
   rb_wf (fold push_sample xs rb) \<and> contents (fold push_sample xs rb) = contents rb @ xs \<and>
   capacity (fold push_sample xs rb) = capacity rb"
proof (induction xs arbitrary: rb)
  case Nil
  then show ?case by simp
next
  case (Cons x xs)
  have a: "availableData rb < capacity rb" using Cons.prems by simp
  have "availableData (push_sample x rb) + length xs \<le> capacity (push_sample x rb)"
    using Cons.prems by (simp add: push_sample_def)
  with Cons.IH[OF push_sample_wf(1)[OF Cons.prems(1) a]] push_sample_wf(2)[OF Cons.prems(1) a]
  show ?case by (simp add: push_sample_def)
qed

lemma push_wf:
  assumes "rb_wf rb"
  shows "\<exists>rb'. push data rb = Some rb' \<and> rb_wf rb' \<and> contents rb' = contents rb @ data"
proof -
  have "0 < capacity rb" using assms by (simp add: rb_wf_def)
  have "\<exists>rb'. grow_loop (length data) rb = Some rb' \<and> (rb_wf rb' \<and> contents rb' = contents rb) \<and>
          0 < capacity rb' \<and> availableData rb' = availableData rb \<and>
          availableData rb' + length data \<le> capacity rb'"
    using \<open>0 < capacity rb\<close>
  proof (rule grow_loop_rule)
    show "rb_wf rb \<and> contents rb = contents rb" using assms by simp
  next
    fix r assume "rb_wf r \<and> contents r = contents rb"
    then show "rb_wf (grow r) \<and> contents (grow r) = contents rb" by (simp add: grow_wf)
  qed
  then obtain rb1 where g: "grow_loop (length data) rb = Some rb1" "rb_wf rb1"
    "contents rb1 = contents rb" "availableData rb1 + length data \<le> capacity rb1"
    by blast
  have "push data rb = Some (fold push_sample data rb1)"
    by (simp add: push_def g(1) fold_index)
  with push_fold_wf[OF g(2) g(4)] g(3) show ?thesis by simp
qed


lemma mod_shift:
  fixes r k a c :: nat
  assumes "k \<le> a"
  shows "((r + k) mod c + a - k) mod c = (r + a) mod c"
proof -
  have "(r + k) mod c + a - k = (r + k) mod c + (a - k)"
    using assms by simp
  also have "\<dots> mod c = ((r + k) + (a - k)) mod c"
    by (simp add: mod_add_left_eq)
  finally show ?thesis using assms by simp
qed

lemma pull_fold:
  "k \<le> length ob \<Longrightarrow> readIndex rb < capacity rb \<Longrightarrow>
   fold pull_sample [0..<k] (ob, rb) =
     (map (\<lambda>i. buffer rb ! ((readIndex rb + i) mod capacity rb)) [0..<k] @ drop k ob,
      rb\<lparr>readIndex := (readIndex rb + k) mod capacity rb\<rparr>)"
proof (induction k)
  case 0
  then show ?case by simp
next
  case (Suc k)
  have "(map (\<lambda>i. buffer rb ! ((readIndex rb + i) mod capacity rb)) [0..<k] @ drop k ob)
          [k := buffer rb ! ((readIndex rb + k) mod capacity rb)] =
        map (\<lambda>i. buffer rb ! ((readIndex rb + i) mod capacity rb)) [0..<Suc k] @ drop (Suc k) ob"
    using Suc.prems(1) by (intro nth_equalityI) (auto simp: nth_append nth_list_update less_Suc_eq)
  then show ?case using Suc by (simp add: pull_sample_def mod_Suc_eq)
qed

lemma pull_wf:
  assumes "rb_wf rb"
  shows "\<exists>rb'. pull ob rb =
            (take (length ob) (contents rb) @ replicate (length ob - availableData rb) 0,
             0 < min (length ob) (availableData rb), rb') \<and>
          rb_wf rb' \<and> contents rb' = drop (length ob) (contents rb)"
proof -
  define k where "k = min (length ob) (availableData rb)"
  define f where "f = (\<lambda>i. buffer rb ! ((readIndex rb + i) mod capacity rb))"
  define rb' where "rb' = rb\<lparr>readIndex := (readIndex rb + k) mod capacity rb,
                               availableData := availableData rb - k\<rparr>"
  have k: "k \<le> length ob" "k \<le> availableData rb" by (simp_all add: k_def)
  have r: "readIndex rb < capacity rb" using assms by (simp add: rb_wf_def)
  have F: "fold pull_sample [0..<k] (ob, rb) =
      (map f [0..<k] @ drop k ob, rb\<lparr>readIndex := (readIndex rb + k) mod capacity rb\<rparr>)"
    unfolding f_def by (rule pull_fold[OF k(1) r])
  have Z: "fold (\<lambda>i ob. ob[i := 0]) [k..<length ob] (map f [0..<k] @ drop k ob) =
      map f [0..<k] @ replicate (length ob - k) 0"
    using fold_zero_upt[of k "map f [0..<k] @ drop k ob" 0] k(1) by simp
  have T: "take (length ob) (contents rb) = map f [0..<k]"
    by (cases "length ob \<le> availableData rb") (simp_all add: contents_def f_def take_map k_def min_def)
  have R: "length ob - k = length ob - availableData rb"
    by (simp add: k_def)
  have P: "pull ob rb = (take (length ob) (contents rb) @ replicate (length ob - availableData rb) 0,
             0 < min (length ob) (availableData rb), rb')"
    unfolding pull_def Let_def k_def[symmetric] F by (simp add: Z T R rb'_def)
  have W: "rb_wf rb'"
    using assms k by (auto simp: rb_wf_def rb'_def mod_shift)
  have "drop (length ob) (contents rb) = map f [k..<availableData rb]"
    by (cases "length ob \<le> availableData rb") (simp_all add: contents_def f_def drop_map k_def min_def)
  also have "[k..<availableData rb] = map (\<lambda>i. i + k) [0..<availableData rb - k]"
    using k(2) by (simp add: map_add_upt)
  finally have D: "drop (length ob) (contents rb) = map (\<lambda>i. f (i + k)) [0..<availableData rb - k]"
    by (simp add: comp_def)
  have "\<And>i. ((readIndex rb + k) mod capacity rb + i) mod capacity rb =
      (readIndex rb + (i + k)) mod capacity rb"
    by (simp add: mod_add_left_eq add.assoc add.commute[of k])
  then have "drop (length ob) (contents rb) = contents rb'"
    unfolding D by (simp add: contents_def rb'_def f_def)
  with P W show ?thesis by auto
qed


lemma contents_new: "contents (RingBuffer_new n) = []"
  by (simp add: contents_def RingBuffer_new_def)

lemma rb_wf_new: "0 < n \<Longrightarrow> rb_wf (RingBuffer_new n)"
  by (simp add: rb_wf_def RingBuffer_new_def)

lemma length_contents: "length (contents rb) = availableData rb"
  by (simp add: contents_def)

lemma rb_run_wf:
  "rb_wf rb \<Longrightarrow>
   \<exists>reals rb'. rb_run cs rb = Some (reals, rb') \<and> rb_wf rb' \<and>
      concat reals @ contents rb' = contents rb @ pushed cs"
proof (induction cs arbitrary: rb)
  case Nil
  then show ?case by simp
next
  case (Cons c cs)
  show ?case
  proof (cases c)
    case (Push data)
    from push_wf[OF Cons.prems, of data] obtain rb1 where
      p: "push data rb = Some rb1" "rb_wf rb1" "contents rb1 = contents rb @ data"
      by blast
    from Cons.IH[OF p(2)] obtain reals rb' where
      "rb_run cs rb1 = Some (reals, rb')" "rb_wf rb'"
      "concat reals @ contents rb' = contents rb1 @ pushed cs"
      by blast
    then show ?thesis using Push p by simp
  next
    case (Pull ob)
    from pull_wf[OF Cons.prems, of ob] obtain rb1 where
      p: "pull ob rb = (take (length ob) (contents rb) @ replicate (length ob - availableData rb) 0,
             0 < min (length ob) (availableData rb), rb1)"
         "rb_wf rb1" "contents rb1 = drop (length ob) (contents rb)"
      by blast
    from Cons.IH[OF p(2)] obtain reals rb' where
      r: "rb_run cs rb1 = Some (reals, rb')" "rb_wf rb'"
      "concat reals @ contents rb' = contents rb1 @ pushed cs"
      by blast
    have t: "take (min (length ob) (available rb))
            (take (length ob) (contents rb) @ replicate (length ob - availableData rb) 0) =
          take (length ob) (contents rb)"
      by (simp add: available_def length_contents min_def)
    have "rb_run (c # cs) rb = Some (take (length ob) (contents rb) # reals, rb')"
      by (simp only: Pull rb_run.simps p(1) prod.case r(1) option.case t)
    moreover have "concat (take (length ob) (contents rb) # reals) @ contents rb' =
        contents rb @ pushed (c # cs)"
    proof -
      have "concat (take (length ob) (contents rb) # reals) @ contents rb' =
          take (length ob) (contents rb) @ (concat reals @ contents rb')"
        by simp
      also have "\<dots> = (take (length ob) (contents rb) @ drop (length ob) (contents rb)) @ pushed cs"
        unfolding r(3) p(3) by simp
      finally show ?thesis using Pull by simp
    qed
    ultimately show ?thesis using r(2) by blast
  qed
qed

lemma pushed_map_Push: "pushed (map Push blocks) = concat blocks"
  by (induction blocks) simp_all

lemma rb_run_map_Push:
  "rb_run (map Push blocks) rb = Some (reals, rb') \<Longrightarrow> reals = []"
  by (induction blocks arbitrary: rb) (auto split: option.splits)

text \<open>
  Claim C5. Start from a fresh buffer of any positive capacity and make any sequence of
  \<^verbatim>\<open>push\<close> and \<^verbatim>\<open>pull\<close> calls. Every call returns, and the real samples returned by
  the pulls, followed by what is still unread, are the pushed samples in the order they
  were pushed. No bound relating the pushed and pulled totals is needed. In
  particular, after pushing any blocks (whatever the initial capacity, hence also
  through any number of doublings) one pull of the total length returns their
  concatenation.
\<close>

theorem ring_buffer_fifo:
  assumes "0 < n"
  shows "(\<exists>reals rb'. rb_run cs (RingBuffer_new n :: 'a::zero RingBuffer) = Some (reals, rb') \<and>
            concat reals @ contents rb' = pushed cs) \<and>
         (\<exists>rb'. rb_run (map Push blocks) (RingBuffer_new n :: 'a RingBuffer) = Some ([], rb') \<and>
            (length outputBuffer = length (concat blocks) \<longrightarrow>
               fst (pull outputBuffer rb') = concat blocks))"
proof
  show "\<exists>reals rb'. rb_run cs (RingBuffer_new n :: 'a RingBuffer) = Some (reals, rb') \<and>
            concat reals @ contents rb' = pushed cs"
    using rb_run_wf[OF rb_wf_new[OF assms], of cs] by (auto simp: contents_new)
next
  from rb_run_wf[OF rb_wf_new[OF assms], of "map Push blocks"] obtain reals rb' where
    r: "rb_run (map Push blocks) (RingBuffer_new n :: 'a RingBuffer) = Some (reals, rb')"
      "rb_wf rb'" "concat reals @ contents rb' = concat blocks"
    by (auto simp: contents_new pushed_map_Push)
  have e: "reals = []" using r(1) by (rule rb_run_map_Push)
  have "fst (pull outputBuffer rb') = concat blocks"
    if "length outputBuffer = length (concat blocks)"
  proof -
    have "length outputBuffer = availableData rb'"
      using that r(3) e length_contents[of rb'] by simp
    then show ?thesis
      using pull_wf[OF r(2), of outputBuffer] r(3) e by (auto simp: length_contents)
  qed
  then show "\<exists>rb'. rb_run (map Push blocks) (RingBuffer_new n :: 'a RingBuffer) = Some ([], rb') \<and>
            (length outputBuffer = length (concat blocks) \<longrightarrow>
               fst (pull outputBuffer rb') = concat blocks)"
    using r(1) e by blast
qed

text \<open>
  Claim C9. On a buffer with \<^verbatim>\<open>available() == 0\<close>, \<^verbatim>\<open>pull\<close> on an output region of any
  length writes zero into every position, returns \<^verbatim>\<open>false\<close> and leaves the buffer as it
  was. \<open>pull\<close> is a total function with no error value: it neither throws nor loops.
\<close>

theorem pull_starved:
  "available rb = 0 \<Longrightarrow> pull outputBuffer rb = (replicate (length outputBuffer) 0, False, rb)"
  using fold_zero_upt[of 0 outputBuffer 0]
  by (simp add: pull_def available_def)

theorem ring_buffer_fifo_witness:
  "(0::nat) < 2 \<and>
   (\<exists>reals rb'. rb_run [Push [1, 2, 3], Pull [9, 9], Push [4, 5], Pull [9, 9, 9, 9, 9]]
        (RingBuffer_new 2 :: int RingBuffer) = Some (reals, rb') \<and>
      concat reals @ contents rb' = [1, 2, 3, 4, 5]) \<and>
   (\<exists>rb'. rb_run (map Push [[1, 2], [3]]) (RingBuffer_new 2 :: int RingBuffer) = Some ([], rb') \<and>
      fst (pull [0, 0, 0] rb') = [1, 2, 3])"
  using ring_buffer_fifo[of 2 "[Push [1, 2, 3], Pull [9, 9], Push [4, 5], Pull [9, 9, 9, 9, 9]]"
      "[[1, 2], [3::int]]" "[0, 0, 0]"]
  by simp

theorem pull_starved_witness:
  "available (RingBuffer_new 4 :: int RingBuffer) = 0 \<and>
   pull [7, 7, 7] (RingBuffer_new 4 :: int RingBuffer) = ([0, 0, 0], False, RingBuffer_new 4)"
proof -
  have h: "available (RingBuffer_new 4 :: int RingBuffer) = 0"
    by (simp add: available_def RingBuffer_new_def)
  show ?thesis using h pull_starved[OF h, of "[7, 7, 7]"] by (simp add: numeral_3_eq_3)
qed

lemma grow_invariant: "rb_invariant rb \<Longrightarrow> rb_invariant (grow rb)"
  by (simp add: rb_invariant_def grow_fields)

lemma push_sample_invariant:
  "rb_invariant rb \<Longrightarrow> availableData rb < capacity rb \<Longrightarrow> rb_invariant (push_sample x rb)"
  by (simp add: rb_invariant_def push_sample_def mod_Suc_eq)

lemma push_fold_invariant:
  "rb_invariant rb \<Longrightarrow> availableData rb + length xs \<le> capacity rb \<Longrightarrow>
   rb_invariant (fold push_sample xs rb)"
proof (induction xs arbitrary: rb)
  case Nil
  then show ?case by simp
next
  case (Cons x xs)
  have "rb_invariant (push_sample x rb)"
    using Cons.prems by (simp add: push_sample_invariant)
  moreover have "availableData (push_sample x rb) + length xs \<le> capacity (push_sample x rb)"
    using Cons.prems by (simp add: push_sample_def)
  ultimately show ?case using Cons.IH by simp
qed

lemma push_invariant:
  assumes "rb_invariant rb"
  shows "\<exists>rb'. push data rb = Some rb' \<and> rb_invariant rb'"
proof -
  have "0 < capacity rb" using assms by (simp add: rb_invariant_def)
  then have "\<exists>rb'. grow_loop (length data) rb = Some rb' \<and> rb_invariant rb' \<and>
          0 < capacity rb' \<and> availableData rb' = availableData rb \<and>
          availableData rb' + length data \<le> capacity rb'"
    using assms grow_invariant by (rule grow_loop_rule)
  then obtain rb1 where g: "grow_loop (length data) rb = Some rb1" "rb_invariant rb1"
    "availableData rb1 + length data \<le> capacity rb1"
    by blast
  have "push data rb = Some (fold push_sample data rb1)"
    by (simp add: push_def g(1) fold_index)
  with push_fold_invariant[OF g(2) g(3)] show ?thesis by simp
qed

lemma pull_fold_readIndex:
  "\<exists>r. snd (fold pull_sample [0..<k] (ob, rb)) = rb\<lparr>readIndex := r\<rparr> \<and>
       r mod capacity rb = (readIndex rb + k) mod capacity rb"
proof (induction k)
  case 0
  have "rb = rb\<lparr>readIndex := readIndex rb\<rparr>" by simp
  then show ?case by (metis add_0_right fold_simps(1) snd_conv upt_0)
next
  case (Suc k)
  then obtain r where r: "snd (fold pull_sample [0..<k] (ob, rb)) = rb\<lparr>readIndex := r\<rparr>"
    "r mod capacity rb = (readIndex rb + k) mod capacity rb"
    by blast
  obtain o1 where "fold pull_sample [0..<k] (ob, rb) = (o1, rb\<lparr>readIndex := r\<rparr>)"
    using r(1) by (cases "fold pull_sample [0..<k] (ob, rb)") simp
  then have "snd (fold pull_sample [0..<Suc k] (ob, rb)) =
      rb\<lparr>readIndex := (r + 1) mod capacity rb\<rparr>"
    by (simp add: pull_sample_def)
  moreover have "((r + 1) mod capacity rb) mod capacity rb = (readIndex rb + Suc k) mod capacity rb"
    using r(2) by (metis Suc_eq_plus1 add_Suc_right mod_Suc_eq mod_mod_trivial)
  ultimately show ?case by blast
qed

lemma pull_invariant:
  assumes "rb_invariant rb"
  shows "rb_invariant (snd (snd (pull outputBuffer rb)))"
proof -
  define k where "k = min (length outputBuffer) (availableData rb)"
  obtain r where r: "snd (fold pull_sample [0..<k] (outputBuffer, rb)) = rb\<lparr>readIndex := r\<rparr>"
    "r mod capacity rb = (readIndex rb + k) mod capacity rb"
    using pull_fold_readIndex by blast
  have p: "snd (snd (pull outputBuffer rb)) = rb\<lparr>readIndex := r, availableData := availableData rb - k\<rparr>"
    using r(1) by (auto simp: pull_def Let_def k_def[symmetric] split: prod.splits)
  have k: "k \<le> availableData rb" by (simp add: k_def)
  have "(r + (availableData rb - k)) mod capacity rb =
      (r mod capacity rb + (availableData rb - k)) mod capacity rb"
    by (simp add: mod_add_left_eq)
  also have "\<dots> = (readIndex rb + availableData rb) mod capacity rb"
    unfolding r(2) using k mod_shift[of k "availableData rb" "readIndex rb" "capacity rb"] by simp
  finally have "rb_invariant (rb\<lparr>readIndex := r, availableData := availableData rb - k\<rparr>)"
    using assms k by (auto simp: rb_invariant_def)
  then show ?thesis by (simp only: p)
qed

text \<open>
  Claim C6. The invariant \<open>availableData \<le> capacity\<close> and
  \<open>writeIndex = (readIndex + availableData) mod capacity\<close> holds for a fresh buffer of
  positive capacity and is kept by \<^verbatim>\<open>push\<close> (which returns, growth included), by
  \<^verbatim>\<open>grow\<close>, \<^verbatim>\<open>pull\<close>, \<^verbatim>\<open>available\<close> (which only reads) and \<^verbatim>\<open>clear\<close>; \<^verbatim>\<open>grow\<close>
  sets \<^verbatim>\<open>readIndex\<close> to 0, keeps \<^verbatim>\<open>availableData\<close> and doubles the capacity.
\<close>

theorem ring_buffer_invariant:
  "(0 < n \<longrightarrow> rb_invariant (RingBuffer_new n :: 'a::zero RingBuffer)) \<and>
   (rb_invariant (rb :: 'a RingBuffer) \<longrightarrow>
      (\<exists>rb'. push data rb = Some rb' \<and> rb_invariant rb') \<and>
      rb_invariant (grow rb) \<and> readIndex (grow rb) = 0 \<and>
      availableData (grow rb) = availableData rb \<and> capacity (grow rb) = 2 * capacity rb \<and>
      rb_invariant (snd (snd (pull outputBuffer rb))) \<and>
      available rb = availableData rb \<and>
      rb_invariant (clear rb))"
  using push_invariant[of rb data] grow_invariant[of rb] pull_invariant[of rb outputBuffer]
  by (simp add: grow_fields available_def) (simp add: rb_invariant_def RingBuffer_new_def clear_def)

theorem ring_buffer_invariant_witness:
  "(0::nat) < 4 \<and> rb_invariant (RingBuffer_new 4 :: int RingBuffer) \<and>
   rb_invariant \<lparr>capacity = 2, buffer = [5, 6::int], readIndex = 1, writeIndex = 1, availableData = 2\<rparr> \<and>
   (\<exists>rb'. push [7] \<lparr>capacity = 2, buffer = [5, 6::int], readIndex = 1, writeIndex = 1,
        availableData = 2\<rparr> = Some rb' \<and> rb_invariant rb') \<and>
   rb_invariant (grow \<lparr>capacity = 2, buffer = [5, 6::int], readIndex = 1, writeIndex = 1,
        availableData = 2\<rparr>) \<and>
   rb_invariant (snd (snd (pull [0] \<lparr>capacity = 2, buffer = [5, 6::int], readIndex = 1,
        writeIndex = 1, availableData = 2\<rparr>)))"
proof -
  have h: "rb_invariant \<lparr>capacity = 2, buffer = [5, 6::int], readIndex = 1, writeIndex = 1,
      availableData = 2\<rparr>"
    by (simp add: rb_invariant_def)
  show ?thesis
    using h ring_buffer_invariant[of 4
      "\<lparr>capacity = 2, buffer = [5, 6::int], readIndex = 1, writeIndex = 1, availableData = 2\<rparr>"
      "[7]" "[0]"]
    by simp
qed

section \<open>Properties of the playback processor\<close>

lemma onmessage_flag:
  "onmessage m p = Some p1 \<Longrightarrow>
   (if streamComplete p1 then 1 else 0) \<le>
     (if m = StreamComplete then 1 else 0) + (if streamComplete p then 1 else (0::nat))"
  by (cases m) (auto split: option.splits)

lemma process_ended:
  assumes "process outputs p = (outputs1, msgs, p1)"
  shows "msgs = [] \<or> msgs = [Ended]"
    and "Ended \<in> set msgs \<Longrightarrow>
      \<exists>channel channels others. outputs = (channel # channels) # others \<and>
        isPlaying p \<and> streamComplete p \<and>
        available (snd (snd (pull channel (ringBuffer p)))) = 0 \<and>
        ringBuffer p1 = snd (snd (pull channel (ringBuffer p))) \<and>
        \<not> isPlaying p1 \<and> \<not> streamComplete p1"
    and "length msgs + (if streamComplete p1 then 1 else 0) \<le> (if streamComplete p then 1 else (0::nat))"
  using assms
  by (auto simp: process_def Let_def split: list.splits if_splits prod.splits)

lemma step_count:
  "step e p = Some (msgs, p1) \<Longrightarrow>
   length msgs + (if streamComplete p1 then 1 else 0) \<le>
     (if e = Message StreamComplete then 1 else 0) + (if streamComplete p then 1 else (0::nat))"
proof (cases e)
  case (Message m)
  assume "step e p = Some (msgs, p1)"
  then have "onmessage m p = Some p1" "msgs = []"
    using Message by (auto split: option.splits)
  then show ?thesis using onmessage_flag[of m p p1] Message by simp
next
  case (Render outputs)
  assume "step e p = Some (msgs, p1)"
  then obtain o1 where "process outputs p = (o1, msgs, p1)"
    using Render by (auto split: prod.splits)
  then show ?thesis using process_ended(3)[of outputs p o1 msgs p1] Render by simp
qed

lemma run_count:
  "run es p = Some (out, p1) \<Longrightarrow>
   length out + (if streamComplete p1 then 1 else 0) \<le>
     completions es + (if streamComplete p then 1 else (0::nat))"
proof (induction es arbitrary: p out)
  case Nil
  then show ?case by (simp add: completions_def)
next
  case (Cons e es)
  from Cons.prems obtain msgs p2 rest where
    s: "step e p = Some (msgs, p2)" and r: "run es p2 = Some (rest, p1)" and o: "out = msgs @ rest"
    by (auto split: option.splits prod.splits)
  have "completions (e # es) = (if e = Message StreamComplete then 1 else 0) + completions es"
    by (simp add: completions_def)
  then show ?case using step_count[OF s] Cons.IH[OF r] o by (simp split: if_splits)
qed

text \<open>
  Claim C4. A step posts at most one message, \<^verbatim>\<open>ended\<close>, and only when it is a render
  step with a channel to fill, taken while the processor is playing with the
  stream-complete flag set, whose pull leaves \<^verbatim>\<open>available() == 0\<close>; that step clears both
  flags. In every run the number of \<^verbatim>\<open>ended\<close> messages, plus one if the flag is still
  set at the end, is at most the number of \<^verbatim>\<open>streamComplete\<close> messages received, plus one
  if the flag was set at the start: each completion is answered at most once. A step that
  handles a port message posts nothing; marking the stream complete only sets the flag,
  whatever the ring buffer holds.
\<close>

theorem ended_only_when_drained:
  "(step e p = Some (msgs, p1) \<longrightarrow>
      (msgs = [] \<or> msgs = [Ended]) \<and>
      (Ended \<in> set msgs \<longrightarrow>
         (\<exists>channel channels others. e = Render ((channel # channels) # others) \<and>
            isPlaying p \<and> streamComplete p \<and>
            available (snd (snd (pull channel (ringBuffer p)))) = 0 \<and>
            ringBuffer p1 = snd (snd (pull channel (ringBuffer p))) \<and>
            \<not> isPlaying p1 \<and> \<not> streamComplete p1))) \<and>
   (run es q = Some (out, q1) \<longrightarrow>
      length out + (if streamComplete q1 then 1 else 0) \<le>
        completions es + (if streamComplete q then 1 else 0)) \<and>
   (step (Message m) r = Some (msgs1, r1) \<longrightarrow> msgs1 = []) \<and>
   step (Message StreamComplete) r = Some ([], r\<lparr>streamComplete := True\<rparr>)"
proof (intro conjI impI)
  assume s: "step e p = Some (msgs, p1)"
  show "msgs = [] \<or> msgs = [Ended]"
  proof (cases e)
    case (Message m)
    then show ?thesis using s by (auto split: option.splits)
  next
    case (Render outputs)
    then obtain o1 where "process outputs p = (o1, msgs, p1)"
      using s by (auto split: prod.splits)
    then show ?thesis by (rule process_ended(1))
  qed
  assume e: "Ended \<in> set msgs"
  show "\<exists>channel channels others. e = Render ((channel # channels) # others) \<and>
            isPlaying p \<and> streamComplete p \<and>
            available (snd (snd (pull channel (ringBuffer p)))) = 0 \<and>
            ringBuffer p1 = snd (snd (pull channel (ringBuffer p))) \<and>
            \<not> isPlaying p1 \<and> \<not> streamComplete p1"
  proof (cases e)
    case (Message m)
    then show ?thesis using s e by (auto split: option.splits)
  next
    case (Render outputs)
    then obtain o1 where "process outputs p = (o1, msgs, p1)"
      using s by (auto split: prod.splits)
    from process_ended(2)[OF this e] show ?thesis using Render by simp
  qed
next
  assume "run es q = Some (out, q1)"
  then show "length out + (if streamComplete q1 then 1 else 0) \<le>
        completions es + (if streamComplete q then 1 else 0)"
    by (rule run_count)
next
  assume "step (Message m) r = Some (msgs1, r1)"
  then show "msgs1 = []" by (auto split: option.splits)
next
  show "step (Message StreamComplete) r = Some ([], r\<lparr>streamComplete := True\<rparr>)" by simp
qed


theorem ended_only_when_drained_witness:
  "step (Render [[[9, 9]]])
     \<lparr>ringBuffer = \<lparr>capacity = 4, buffer = [1, 2, 0, 0::int], readIndex = 1, writeIndex = 2,
        availableData = 1\<rparr>, isPlaying = True, streamComplete = True\<rparr> =
     Some ([Ended],
       \<lparr>ringBuffer = \<lparr>capacity = 4, buffer = [1, 2, 0, 0], readIndex = 2, writeIndex = 2,
          availableData = 0\<rparr>, isPlaying = False, streamComplete = False\<rparr>) \<and>
   available (snd (snd (pull [9, 9] \<lparr>capacity = 4, buffer = [1, 2, 0, 0::int], readIndex = 1,
      writeIndex = 2, availableData = 1\<rparr>))) = 0 \<and>
   run [Message (Audio [1, 2]), Message StreamComplete, Render [[[9]]], Render [[[9, 9]]],
        Render [[[9]]]]
     \<lparr>ringBuffer = RingBuffer_new 4, isPlaying = False, streamComplete = False\<rparr> =
     Some ([Ended],
       \<lparr>ringBuffer = \<lparr>capacity = 4, buffer = [1, 2, 0, 0::int], readIndex = 2, writeIndex = 2,
          availableData = 0\<rparr>, isPlaying = False, streamComplete = False\<rparr>) \<and>
   completions [Message (Audio [1, 2]), Message StreamComplete, Render [[[9]]], Render [[[9, 9]]],
        Render [[[9::int]]]] = 1 \<and>
   step (Message StreamComplete)
     \<lparr>ringBuffer = \<lparr>capacity = 4, buffer = [1, 2, 0, 0::int], readIndex = 0, writeIndex = 2,
        availableData = 2\<rparr>, isPlaying = True, streamComplete = False\<rparr> =
     Some ([],
       \<lparr>ringBuffer = \<lparr>capacity = 4, buffer = [1, 2, 0, 0::int], readIndex = 0, writeIndex = 2,
        availableData = 2\<rparr>, isPlaying = True, streamComplete = True\<rparr>)"
proof -
  have s: "step (Render [[[9, 9]]])
     \<lparr>ringBuffer = \<lparr>capacity = 4, buffer = [1, 2, 0, 0::int], readIndex = 1, writeIndex = 2,
        availableData = 1\<rparr>, isPlaying = True, streamComplete = True\<rparr> =
     Some ([Ended],
       \<lparr>ringBuffer = \<lparr>capacity = 4, buffer = [1, 2, 0, 0], readIndex = 2, writeIndex = 2,
          availableData = 0\<rparr>, isPlaying = False, streamComplete = False\<rparr>)"
    by code_simp
  have r: "run [Message (Audio [1, 2]), Message StreamComplete, Render [[[9]]], Render [[[9, 9]]],
        Render [[[9]]]]
     \<lparr>ringBuffer = RingBuffer_new 4, isPlaying = False, streamComplete = False\<rparr> =
     Some ([Ended],
       \<lparr>ringBuffer = \<lparr>capacity = 4, buffer = [1, 2, 0, 0::int], readIndex = 2, writeIndex = 2,
          availableData = 0\<rparr>, isPlaying = False, streamComplete = False\<rparr>)"
    by code_simp
  have m: "step (Message StreamComplete)
     \<lparr>ringBuffer = \<lparr>capacity = 4, buffer = [1, 2, 0, 0::int], readIndex = 0, writeIndex = 2,
        availableData = 2\<rparr>, isPlaying = True, streamComplete = False\<rparr> =
     Some ([],
       \<lparr>ringBuffer = \<lparr>capacity = 4, buffer = [1, 2, 0, 0::int], readIndex = 0, writeIndex = 2,
        availableData = 2\<rparr>, isPlaying = True, streamComplete = True\<rparr>)"
    by simp
  from ended_only_when_drained[of "Render [[[9, 9]]]"
      "\<lparr>ringBuffer = \<lparr>capacity = 4, buffer = [1, 2, 0, 0::int], readIndex = 1, writeIndex = 2,
        availableData = 1\<rparr>, isPlaying = True, streamComplete = True\<rparr>"
      "[Ended]"
      "\<lparr>ringBuffer = \<lparr>capacity = 4, buffer = [1, 2, 0, 0], readIndex = 2, writeIndex = 2,
          availableData = 0\<rparr>, isPlaying = False, streamComplete = False\<rparr>"
      "[Message (Audio [1, 2]), Message StreamComplete, Render [[[9]]], Render [[[9, 9]]],
        Render [[[9]]]]"
      "\<lparr>ringBuffer = RingBuffer_new 4, isPlaying = False, streamComplete = False\<rparr>"
      "[Ended]"
      "\<lparr>ringBuffer = \<lparr>capacity = 4, buffer = [1, 2, 0, 0::int], readIndex = 2, writeIndex = 2,
          availableData = 0\<rparr>, isPlaying = False, streamComplete = False\<rparr>"
      StreamComplete
      "\<lparr>ringBuffer = \<lparr>capacity = 4, buffer = [1, 2, 0, 0::int], readIndex = 0, writeIndex = 2,
        availableData = 2\<rparr>, isPlaying = True, streamComplete = False\<rparr>"
      "[]"
      "\<lparr>ringBuffer = \<lparr>capacity = 4, buffer = [1, 2, 0, 0::int], readIndex = 0, writeIndex = 2,
        availableData = 2\<rparr>, isPlaying = True, streamComplete = True\<rparr>"]
  have "available (snd (snd (pull [9, 9] \<lparr>capacity = 4, buffer = [1, 2, 0, 0::int], readIndex = 1,
      writeIndex = 2, availableData = 1\<rparr>))) = 0"
    unfolding s r m by simp
  moreover have "completions [Message (Audio [1, 2]), Message StreamComplete, Render [[[9]]],
      Render [[[9, 9]]], Render [[[9::int]]]] = 1"
    by (simp add: completions_def)
  ultimately show ?thesis using s r m by simp
qed

section \<open>Properties of the sequence buffer\<close>

lemma drain_spec:
  "\<exists>k'. nextSeq sb \<le> k' \<and>
     (\<forall>i. nextSeq sb \<le> i \<and> i < k' \<longrightarrow> map_of (pending sb) i \<noteq> None) \<and>
     map_of (pending sb) k' = None \<and>
     fst (drain sb acc) = acc @ concat (map (\<lambda>i. the (map_of (pending sb) i)) [nextSeq sb..k' - 1]) \<and>
     nextSeq (snd (drain sb acc)) = k' \<and>
     map_of (pending (snd (drain sb acc))) =
       (\<lambda>i. if nextSeq sb \<le> i \<and> i < k' then None else map_of (pending sb) i)"
proof (induction sb acc rule: drain.induct)
  case (1 sb ready)
  show ?case
  proof (cases "map_of (pending sb) (nextSeq sb)")
    case None
    then have "drain sb ready = (ready, sb)" by (subst drain.simps) simp
    then show ?thesis using None by (intro exI[of _ "nextSeq sb"]) (auto simp: fun_eq_iff)
  next
    case (Some chunks)
    define sb1 where "sb1 = sb\<lparr>pending := AList.delete (nextSeq sb) (pending sb), nextSeq := nextSeq sb + 1\<rparr>"
    have d: "drain sb ready = drain sb1 (ready @ chunks)"
      using Some by (subst drain.simps) (simp add: sb1_def)
    have m1: "map_of (pending sb1) = (map_of (pending sb))(nextSeq sb := None)"
      by (simp add: sb1_def delete_conv')
    from "1.IH"[OF Some] obtain k' where k:
      "nextSeq sb1 \<le> k'"
      "\<forall>i. nextSeq sb1 \<le> i \<and> i < k' \<longrightarrow> map_of (pending sb1) i \<noteq> None"
      "map_of (pending sb1) k' = None"
      "fst (drain sb1 (ready @ chunks)) =
         (ready @ chunks) @ concat (map (\<lambda>i. the (map_of (pending sb1) i)) [nextSeq sb1..k' - 1])"
      "nextSeq (snd (drain sb1 (ready @ chunks))) = k'"
      "map_of (pending (snd (drain sb1 (ready @ chunks)))) =
         (\<lambda>i. if nextSeq sb1 \<le> i \<and> i < k' then None else map_of (pending sb1) i)"
      unfolding sb1_def by blast
    have n1: "nextSeq sb1 = nextSeq sb + 1" by (simp add: sb1_def)
    have lt: "nextSeq sb < k'" using k(1) n1 by simp
    have a: "\<forall>i. nextSeq sb \<le> i \<and> i < k' \<longrightarrow> map_of (pending sb) i \<noteq> None"
    proof (intro allI impI)
      fix i assume i: "nextSeq sb \<le> i \<and> i < k'"
      show "map_of (pending sb) i \<noteq> None"
      proof (cases "i = nextSeq sb")
        case True
        then show ?thesis using Some by simp
      next
        case False
        then have "nextSeq sb1 \<le> i \<and> i < k'" using i n1 by simp
        then have "map_of (pending sb1) i \<noteq> None" using k(2) by blast
        then show ?thesis using False by (simp add: m1)
      qed
    qed
    have b: "map_of (pending sb) k' = None"
      using k(3) lt by (simp add: m1)
    have x: "map (\<lambda>i. the (map_of (pending sb1) i)) [nextSeq sb1..k' - 1] =
          map (\<lambda>i. the (map_of (pending sb) i)) [nextSeq sb1..k' - 1]"
      by (rule map_cong) (auto simp: m1 n1)
    have y: "[nextSeq sb..k' - 1] = nextSeq sb # [nextSeq sb1..k' - 1]"
      using lt n1 by (simp add: upto_rec1)
    have c: "fst (drain sb ready) =
        ready @ concat (map (\<lambda>i. the (map_of (pending sb) i)) [nextSeq sb..k' - 1])"
      unfolding d k(4) x y using Some by simp
    have e: "map_of (pending (snd (drain sb ready))) =
       (\<lambda>i. if nextSeq sb \<le> i \<and> i < k' then None else map_of (pending sb) i)"
      unfolding d k(6) using lt by (auto simp: m1 n1 fun_eq_iff)
    show ?thesis
      using lt a b c e k(5) by (intro exI[of _ k']) (simp add: d)
  qed
qed


lemma push_drain: "SequenceBuffer_push seq data sb = drain (store_chunk seq data sb) []"
  by (simp add: SequenceBuffer_push_def)

lemma store_chunk_map:
  "map_of (pending (store_chunk seq data sb)) =
     (map_of (pending sb))(seq \<mapsto> (case map_of (pending sb) seq of None \<Rightarrow> [] | Some q \<Rightarrow> q) @ [data])"
  by (auto simp: store_chunk_def Let_def update_conv' split: option.splits)

lemma nextSeq_store_chunk: "nextSeq (store_chunk seq data sb) = nextSeq sb"
  by (simp add: store_chunk_def)

lemma push_inv:
  assumes inv: "sb_inv f S sb" and s: "s \<notin> S" "0 \<le> s"
  shows "\<exists>k'. fst (SequenceBuffer_push s (f s) sb) = map f [nextSeq sb..k' - 1] \<and>
           nextSeq sb \<le> k' \<and>
           nextSeq (snd (SequenceBuffer_push s (f s) sb)) = k' \<and>
           sb_inv f (insert s S) (snd (SequenceBuffer_push s (f s) sb))"
proof -
  define k where "k = nextSeq sb"
  define sb2 where "sb2 = store_chunk s (f s) sb"
  have k0: "0 \<le> k" and sub: "{0..<k} \<subseteq> S" and kS: "k \<notin> S"
    and m: "map_of (pending sb) = (\<lambda>i. if i \<in> S \<and> k < i then Some [f i] else None)"
    using inv by (simp_all add: sb_inv_def k_def)
  have ks: "k \<le> s"
  proof (rule ccontr)
    assume "\<not> k \<le> s"
    then have "s \<in> {0..<k}" using s(2) by simp
    then show False using sub s(1) by blast
  qed
  have m2: "map_of (pending sb2) = (\<lambda>i. if i = s \<or> (i \<in> S \<and> k < i) then Some [f i] else None)"
    unfolding sb2_def store_chunk_map m using s(1) by (auto simp: fun_eq_iff)
  have n2: "nextSeq sb2 = k" by (simp add: sb2_def nextSeq_store_chunk k_def)
  from drain_spec[of sb2 "[]"] obtain k' where d:
    "k \<le> k'"
    "\<forall>i. k \<le> i \<and> i < k' \<longrightarrow> map_of (pending sb2) i \<noteq> None"
    "map_of (pending sb2) k' = None"
    "fst (drain sb2 []) = concat (map (\<lambda>i. the (map_of (pending sb2) i)) [k..k' - 1])"
    "nextSeq (snd (drain sb2 [])) = k'"
    "map_of (pending (snd (drain sb2 []))) =
       (\<lambda>i. if k \<le> i \<and> i < k' then None else map_of (pending sb2) i)"
    unfolding n2 by auto
  have mem: "i = s \<or> (i \<in> S \<and> k < i)" if "k \<le> i" "i < k'" for i
  proof -
    have "map_of (pending sb2) i \<noteq> None" using d(2) that by blast
    then show ?thesis by (simp add: m2 split: if_splits)
  qed
  have eq: "map (\<lambda>i. the (map_of (pending sb2) i)) [k..k' - 1] = map (\<lambda>i. [f i]) [k..k' - 1]"
  proof (rule map_cong[OF refl])
    fix i assume "i \<in> set [k..k' - 1]"
    then have "k \<le> i" "i < k'" by simp_all
    then show "the (map_of (pending sb2) i) = [f i]" using mem[of i] by (simp add: m2)
  qed
  have out: "fst (drain sb2 []) = map f [k..k' - 1]"
    unfolding d(4) eq by (simp add: concat_map_singleton)
  have k'S: "k' \<noteq> s" "k' \<notin> S"
  proof -
    from d(3) have n: "\<not> (k' = s \<or> (k' \<in> S \<and> k < k'))"
      by (simp add: m2 split: if_splits)
    then show "k' \<noteq> s" by simp
    show "k' \<notin> S"
    proof
      assume "k' \<in> S"
      then have "k' = k" using n d(1) by auto
      then show False using kS \<open>k' \<in> S\<close> by simp
    qed
  qed
  have sub': "{0..<k'} \<subseteq> insert s S"
  proof
    fix i assume "i \<in> {0..<k'}"
    then have i: "0 \<le> i" "i < k'" by simp_all
    show "i \<in> insert s S"
    proof (cases "i < k")
      case True
      then show ?thesis using sub i(1) by auto
    next
      case False
      then show ?thesis using mem[of i] i(2) by auto
    qed
  qed
  have m': "map_of (pending (snd (drain sb2 []))) =
      (\<lambda>i. if i \<in> insert s S \<and> k' < i then Some [f i] else None)"
  proof -
    have ne: "\<And>x. x \<in> S \<Longrightarrow> x \<noteq> k'" using k'S(2) by blast
    show ?thesis
      unfolding d(6) m2 using ks d(1) k'S(1) ne by (fastforce simp: fun_eq_iff)
  qed
  have "sb_inv f (insert s S) (snd (drain sb2 []))"
    unfolding sb_inv_def d(5) using k0 d(1) sub' k'S m' by simp
  then show ?thesis
    using out d(1) d(5) by (intro exI[of _ k']) (simp add: push_drain sb2_def[symmetric] k_def)
qed


lemma push_all_inv:
  assumes "sb_inv f S sb" "distinct js" "set js \<inter> S = {}" "\<forall>i\<in>set js. 0 \<le> i"
  shows "\<exists>k'. nextSeq sb \<le> k' \<and>
           fst (push_all (map (\<lambda>i. (i, f i)) js) sb) = map f [nextSeq sb..k' - 1] \<and>
           nextSeq (snd (push_all (map (\<lambda>i. (i, f i)) js) sb)) = k' \<and>
           sb_inv f (S \<union> set js) (snd (push_all (map (\<lambda>i. (i, f i)) js) sb))"
  using assms
proof (induction js arbitrary: S sb)
  case Nil
  then show ?case by (intro exI[of _ "nextSeq sb"]) simp
next
  case (Cons s js)
  define r where "r = SequenceBuffer_push s (f s) sb"
  have "s \<notin> S" "0 \<le> s" using Cons.prems by auto
  from push_inv[OF Cons.prems(1) this] obtain k1 where p:
    "fst r = map f [nextSeq sb..k1 - 1]" "nextSeq sb \<le> k1" "nextSeq (snd r) = k1"
    "sb_inv f (insert s S) (snd r)"
    unfolding r_def by blast
  have "distinct js" "set js \<inter> insert s S = {}" "\<forall>i\<in>set js. 0 \<le> i"
    using Cons.prems by auto
  from Cons.IH[OF p(4) this] obtain k2 where q:
    "k1 \<le> k2"
    "fst (push_all (map (\<lambda>i. (i, f i)) js) (snd r)) = map f [k1..k2 - 1]"
    "nextSeq (snd (push_all (map (\<lambda>i. (i, f i)) js) (snd r))) = k2"
    "sb_inv f (insert s S \<union> set js) (snd (push_all (map (\<lambda>i. (i, f i)) js) (snd r)))"
    unfolding p(3) by blast
  have split: "[nextSeq sb..k2 - 1] = [nextSeq sb..k1 - 1] @ [k1..k2 - 1]"
    using p(2) q(1) by (cases "k1 = k2") (simp_all add: upto_split1[of "nextSeq sb" k1 "k2 - 1"])
  have unf: "push_all (map (\<lambda>i. (i, f i)) (s # js)) sb =
      (fst r @ fst (push_all (map (\<lambda>i. (i, f i)) js) (snd r)),
       snd (push_all (map (\<lambda>i. (i, f i)) js) (snd r)))"
    by (simp add: r_def split: prod.splits)
  show ?case
    unfolding unf using p(1,2) q split by (intro exI[of _ k2]) simp
qed

lemma sb_inv_new: "sb_inv f {} SequenceBuffer_new"
  by (simp add: sb_inv_def SequenceBuffer_new_def)

lemma map_nth_upto: "map (\<lambda>i. ps ! nat i) [0..int (length ps) - 1] = ps"
  by (rule nth_equalityI) (simp_all add: nth_upto)

lemma push_all_permutation:
  assumes "distinct order" and "set order = {0..<length ps}"
  shows "fst (push_all (map (\<lambda>i. (int i, ps ! i)) order) SequenceBuffer_new) = ps"
proof -
  define f where "f = (\<lambda>i. ps ! nat i)"
  define js where "js = map int order"
  have e: "map (\<lambda>i. (int i, ps ! i)) order = map (\<lambda>i. (i, f i)) js"
    by (simp add: js_def f_def comp_def)
  have "distinct js" "set js \<inter> {} = {}" "\<forall>i\<in>set js. 0 \<le> i"
    using assms(1) by (auto simp: js_def distinct_map)
  from push_all_inv[OF sb_inv_new this, of f] obtain k' where k:
    "fst (push_all (map (\<lambda>i. (i, f i)) js) SequenceBuffer_new) = map f [0..k' - 1]"
    "sb_inv f (set js) (snd (push_all (map (\<lambda>i. (i, f i)) js) SequenceBuffer_new))"
    "nextSeq (snd (push_all (map (\<lambda>i. (i, f i)) js) SequenceBuffer_new)) = k'"
    by (auto simp: SequenceBuffer_new_def)
  have S: "set js = {0..<int (length ps)}"
  proof -
    have "set js = int ` {0..<length ps}" using assms(2) by (simp add: js_def)
    also have "\<dots> = {0..<int (length ps)}" by (simp add: image_int_atLeastLessThan)
    finally show ?thesis .
  qed
  have b: "0 \<le> k'" "{0..<k'} \<subseteq> {0..<int (length ps)}" "k' \<notin> {0..<int (length ps)}"
    using k(2) unfolding sb_inv_def k(3) S by simp_all
  have "k' \<le> int (length ps)"
  proof (rule ccontr)
    assume "\<not> k' \<le> int (length ps)"
    then have "int (length ps) \<in> {0..<k'}" by simp
    then show False using b(2) by auto
  qed
  then have "k' = int (length ps)" using b(1,3) by simp
  then have "map f [0..k' - 1] = ps" by (simp add: f_def map_nth_upto)
  then show ?thesis by (simp only: e k(1))
qed

text \<open>
  Claim C1. Let \<open>ps\<close> be the payloads in sequence order and \<open>order\<close> any permutation of
  \<open>0, \<dots>, n - 1\<close> (a list without repetition whose elements are exactly these numbers).
  Pushing fragment \<open>i\<close> with payload \<open>ps ! i\<close> in that order into a fresh buffer, the lists
  returned by the successive pushes, concatenated, are \<open>ps\<close>.
\<close>

theorem reordering_correct:
  assumes "distinct order" and "set order = {0..<length ps}"
  shows "fst (push_all (map (\<lambda>i. (int i, ps ! i)) order) SequenceBuffer_new) = ps"
  using assms by (rule push_all_permutation)

theorem reordering_correct_witness:
  "distinct [2, 0, 1::nat] \<and> set [2, 0, 1::nat] = {0..<length [''a'', ''b'', ''c'']} \<and>
   fst (push_all [(2, ''c''), (0, ''a''), (1, ''b'')] SequenceBuffer_new) = [''a'', ''b'', ''c'']"
proof -
  have d: "distinct [2, 0, 1::nat]" by simp
  have s: "set [2, 0, 1::nat] = {0..<length [''a'', ''b'', ''c'']}" by auto
  show ?thesis using d s reordering_correct[OF d s] by simp
qed













section \<open>Properties of the decoder\<close>

lemma atob_cases: "atob s = Inl InvalidCharacterError \<or> (\<exists>raw. atob s = Inr raw)"
  by (simp add: atob_def Let_def split: option.splits)

lemma length_int16_view: "length (int16_view bytes) = length bytes div 2"
  by (induction bytes rule: int16_view.induct) simp_all

lemma nth_int16_view:
  "i < length bytes div 2 \<Longrightarrow>
   int16_view bytes ! i = ucast (bytes ! (2 * i)) + 256 * ucast (bytes ! (2 * i + 1))"
proof (induction bytes arbitrary: i rule: int16_view.induct)
  case (1 lo hi rest)
  then show ?case by (cases i) simp_all
qed simp_all

lemma sample_range:
  fixes v :: "16 word"
  shows "- 1 \<le> (of_int (sint v) / 32768 :: rat) \<and> (of_int (sint v) / 32768 :: rat) < 1"
proof -
  have "- 32768 \<le> sint v" "sint v < 32768"
    using sint_ge[of v] sint_lt[of v] by simp_all
  then have "(of_int (- 32768) :: rat) \<le> of_int (sint v)" "(of_int (sint v) :: rat) < of_int 32768"
    by (simp_all only: of_int_le_iff of_int_less_iff)
  then show ?thesis by (simp add: field_simps)
qed

text \<open>
  Claim C8 says that the decoder fails only on malformed base64. It fails also on
  well-formed base64 that decodes to an odd number of bytes: \<^verbatim>\<open>atob("AAAA")\<close> is three
  zero bytes, and \<^verbatim>\<open>new Int16Array\<close> on a buffer of three bytes throws a \<^verbatim>\<open>RangeError\<close>.
\<close>

theorem decode_counterexample:
  "atob ''AAAA'' = Inr [0, 0, 0] \<and> decodePCM16ToFloat32 ''AAAA'' = Inl RangeError"
  by (simp add: decodePCM16ToFloat32_def atob_def strip_padding_def ascii_whitespace_def
      base64_value_def Int16Array_of_buffer_def)

text \<open>
  Claim C8 as amended. The decoder throws exactly in two cases: \<^verbatim>\<open>atob\<close> rejects the
  input (malformed base64), or \<^verbatim>\<open>atob\<close> accepts it and the number of decoded bytes is odd.
  When the input is well-formed base64 with an even number of decoded bytes the decoder
  succeeds; the result has one element for each pair of bytes, element \<open>i\<close> being the
  signed 16-bit value with low byte \<open>2i\<close> and high byte \<open>2i + 1\<close>, divided by 32768, a
  number in \<open>[-1, 1)\<close>.
\<close>

theorem decode_result:
  "(decodePCM16ToFloat32 s = Inl e \<longleftrightarrow>
      (e = InvalidCharacterError \<and> atob s = Inl InvalidCharacterError) \<or>
      (e = RangeError \<and> (\<exists>raw. atob s = Inr raw \<and> odd (length raw)))) \<and>
   (atob s = Inr raw \<and> even (length raw) \<longrightarrow>
      (\<exists>out. decodePCM16ToFloat32 s = Inr out \<and> length out = length raw div 2 \<and>
         (\<forall>i<length out.
            out ! i = of_int (sint (ucast (of_nat (raw ! (2 * i)) :: 8 word) +
                                    256 * ucast (of_nat (raw ! (2 * i + 1)) :: 8 word) :: 16 word))
                        / 32768 \<and>
            - 1 \<le> out ! i \<and> out ! i < 1)))"
proof (intro conjI impI)
  show "decodePCM16ToFloat32 s = Inl e \<longleftrightarrow>
      (e = InvalidCharacterError \<and> atob s = Inl InvalidCharacterError) \<or>
      (e = RangeError \<and> (\<exists>raw. atob s = Inr raw \<and> odd (length raw)))"
    using atob_cases[of s]
    by (auto simp: decodePCM16ToFloat32_def Int16Array_of_buffer_def Let_def
        split: sum.splits if_splits)
next
  assume a: "atob s = Inr raw \<and> even (length raw)"
  define out where "out = map (\<lambda>v. of_int (sint v) / 32768 :: rat)
      (int16_view (map (\<lambda>code. of_nat code :: 8 word) raw))"
  have d: "decodePCM16ToFloat32 s = Inr out"
    using a by (simp add: decodePCM16ToFloat32_def Int16Array_of_buffer_def out_def)
  have l: "length out = length raw div 2"
    by (simp add: out_def length_int16_view)
  have "out ! i = of_int (sint (ucast (of_nat (raw ! (2 * i)) :: 8 word) +
                                    256 * ucast (of_nat (raw ! (2 * i + 1)) :: 8 word) :: 16 word))
                        / 32768 \<and> - 1 \<le> out ! i \<and> out ! i < 1"
    if "i < length out" for i
  proof -
    have i: "i < length raw div 2" using that l by simp
    then have "2 * i < length raw" "2 * i + 1 < length raw" by simp_all
    let ?w = "ucast (of_nat (raw ! (2 * i)) :: 8 word) +
                256 * ucast (of_nat (raw ! (2 * i + 1)) :: 8 word) :: 16 word"
    have e: "out ! i = of_int (sint ?w) / 32768"
      using i \<open>2 * i < length raw\<close> \<open>2 * i + 1 < length raw\<close>
      by (simp add: out_def length_int16_view nth_int16_view)
    show ?thesis unfolding e using sample_range[of ?w] by blast
  qed
  then show "\<exists>out. decodePCM16ToFloat32 s = Inr out \<and> length out = length raw div 2 \<and>
         (\<forall>i<length out.
            out ! i = of_int (sint (ucast (of_nat (raw ! (2 * i)) :: 8 word) +
                                    256 * ucast (of_nat (raw ! (2 * i + 1)) :: 8 word) :: 16 word))
                        / 32768 \<and>
            - 1 \<le> out ! i \<and> out ! i < 1)"
    using d l by blast
qed

theorem decode_result_witness:
  "atob ''AQD//w=='' = Inr [1, 0, 255, 255] \<and> even (length [1, 0, 255, 255::nat]) \<and>
   decodePCM16ToFloat32 ''AQD//w=='' = Inr [1 / 32768, - 1 / 32768] \<and>
   atob ''AAAA'' = Inr [0, 0, 0] \<and> odd (length [0, 0, 0::nat]) \<and>
   decodePCM16ToFloat32 ''AAAA'' = Inl RangeError"
proof -
  have a: "atob ''AQD//w=='' = Inr [1, 0, 255, 255]"
    by (simp add: atob_def strip_padding_def ascii_whitespace_def base64_value_def)
  have b: "atob ''AAAA'' = Inr [0, 0, 0]"
    by (simp add: atob_def strip_padding_def ascii_whitespace_def base64_value_def)
  have c: "decodePCM16ToFloat32 ''AQD//w=='' = Inr [1 / 32768, - 1 / 32768]"
    by (simp add: decodePCM16ToFloat32_def a Int16Array_of_buffer_def)
  have "\<exists>raw. atob ''AAAA'' = Inr raw \<and> odd (length raw)"
    using b by simp
  then have d: "decodePCM16ToFloat32 ''AAAA'' = Inl RangeError"
    using decode_result[of "''AAAA''" RangeError] by blast
  show ?thesis using a b c d by simp
qed

section \<open>Properties of the stream orchestrator\<close>

lemmas stream_defs = streamVoiceResponse_def process_chunk_def process_line_def try_line_def
  dispatch_def call_def stream_start_def playback_clear_def init_def playback_new_def
  SequenceBuffer_reset_def SequenceBuffer_new_def startsWith_def all_callbacks_def
  example_parse_def pushAudio_def signalComplete_def


lemma decode_AQA: "decodePCM16ToFloat32 ''AQA='' = Inr [1 / 32768]"
  by (simp add: decodePCM16ToFloat32_def atob_def strip_padding_def ascii_whitespace_def
      base64_value_def Int16Array_of_buffer_def)

lemma decode_AgA: "decodePCM16ToFloat32 ''AgA='' = Inr [1 / 16384]"
  by (simp add: decodePCM16ToFloat32_def atob_def strip_padding_def ascii_whitespace_def
      base64_value_def Int16Array_of_buffer_def)

lemma decode_AAAA: "decodePCM16ToFloat32 ''AAAA'' = Inl RangeError"
  by (simp add: decodePCM16ToFloat32_def atob_def strip_padding_def ascii_whitespace_def
      base64_value_def Int16Array_of_buffer_def)


lemma decode_error_cases:
  "decodePCM16ToFloat32 s = Inl e \<Longrightarrow> e = InvalidCharacterError \<or> e = RangeError"
  by (auto simp: decodePCM16ToFloat32_def atob_def Int16Array_of_buffer_def Let_def
      split: sum.splits if_splits option.splits)

lemma process_line_error:
  assumes "startsWith line ''data: ''" "parse (drop 6 line) = Some event" "ev_type event = ''error''"
  shows "process_line parse cb line st = call (onError cb) (OnError (Error (ev_error event))) st"
  using assms by (simp add: process_line_def try_line_def dispatch_def)


lemma process_line_bad_audio:
  assumes "startsWith line ''data: ''" "parse (drop 6 line) = Some event" "ev_type event = ''audio''"
    and "worklet (playback_of st)" "decodePCM16ToFloat32 (ev_data event) = Inl e"
  shows "process_line parse cb line st = call (onError cb) (OnError e) st"
proof -
  have "e \<noteq> SyntaxError" using decode_error_cases[OF assms(5)] by auto
  then show ?thesis
    using assms by (simp add: process_line_def try_line_def dispatch_def pushAudio_def)
qed

lemma worklet_process_line:
  "worklet (playback_of st) \<Longrightarrow> worklet (playback_of (process_line parse cb line st))"
  by (auto simp: process_line_def try_line_def dispatch_def pushAudio_def signalComplete_def
      call_def Let_def split: option.splits sum.splits prod.splits if_splits)

lemma worklet_stream_start: "worklet (playback_of (stream_start pb))"
  by (simp add: stream_start_def playback_clear_def init_def Let_def)


lemma posted_process_line:
  assumes "worklet (playback_of st)"
  shows "posted (playback_of (process_line parse cb line st)) =
     posted (playback_of st) @ messages_of_line parse line"
  using assms
  by (auto simp: process_line_def try_line_def dispatch_def pushAudio_def signalComplete_def
      call_def Let_def messages_of_line_def split: option.splits sum.splits prod.splits if_splits)

lemma posted_fold:
  "worklet (playback_of st) \<Longrightarrow>
   posted (playback_of (fold (process_line parse cb) lines st)) =
     posted (playback_of st) @ concat (map (messages_of_line parse) lines)"
proof (induction lines arbitrary: st)
  case Nil
  then show ?case by simp
next
  case (Cons l lines)
  have "worklet (playback_of (process_line parse cb l st))"
    using Cons.prems by (rule worklet_process_line)
  from Cons.IH[OF this] show ?case
    using Cons.prems by (simp add: posted_process_line)
qed

lemma split_lines_nonempty: "split_lines s \<noteq> []"
  by (induction s) (auto split: list.splits)

lemma split_lines_append:
  "split_lines (a @ b) = butlast (split_lines a) @ split_lines (last (split_lines a) @ b)"
proof (induction a)
  case Nil
  then show ?case by simp
next
  case (Cons c cs)
  obtain l0 ls0 where X: "split_lines cs = l0 # ls0"
    using split_lines_nonempty[of cs] by (cases "split_lines cs") auto
  show ?case
  proof (cases "c = CHR 0x0A")
    case True
    then show ?thesis using Cons.IH split_lines_nonempty[of cs] by simp
  next
    case False
    show ?thesis
    proof (cases "ls0 = []")
      case True
      then show ?thesis using False Cons.IH X by simp
    next
      case ne: False
      then show ?thesis using False Cons.IH X by simp
    qed
  qed
qed

lemma last_split_lines_no_newline: "CHR 0x0A \<notin> set (last (split_lines s))"
proof (induction s)
  case Nil
  then show ?case by simp
next
  case (Cons c cs)
  then show ?case
    using split_lines_nonempty[of cs] by (cases "split_lines cs") (auto split: if_splits)
qed

lemma split_lines_no_newline: "CHR 0x0A \<notin> set s \<Longrightarrow> split_lines s = [s]"
  by (induction s) auto

lemma process_line_line_buffer:
  "process_line parse cb line (st\<lparr>line_buffer := b\<rparr>) =
     (process_line parse cb line st)\<lparr>line_buffer := b\<rparr>"
  by (auto simp: process_line_def try_line_def dispatch_def call_def Let_def
      split: option.splits prod.splits)

lemma fold_process_line_line_buffer:
  "fold (process_line parse cb) lines (st\<lparr>line_buffer := b\<rparr>) =
     (fold (process_line parse cb) lines st)\<lparr>line_buffer := b\<rparr>"
  by (induction lines arbitrary: st) (simp_all add: process_line_line_buffer)

lemma fold_process_chunk:
  assumes "CHR 0x0A \<notin> set (line_buffer st)"
  shows "fold (process_chunk parse cb) chunks st =
     (fold (process_line parse cb) (butlast (split_lines (line_buffer st @ concat chunks))) st)
       \<lparr>line_buffer := last (split_lines (line_buffer st @ concat chunks))\<rparr>"
  using assms
proof (induction chunks arbitrary: st)
  case Nil
  then show ?case by (simp add: split_lines_no_newline)
next
  case (Cons c chunks)
  define L1 where "L1 = split_lines (line_buffer st @ c)"
  define st1 where "st1 = process_chunk parse cb c st"
  define L2 where "L2 = split_lines (last L1 @ concat chunks)"
  have s1: "st1 = (fold (process_line parse cb) (butlast L1) st)\<lparr>line_buffer := last L1\<rparr>"
    by (simp add: st1_def process_chunk_def Let_def L1_def fold_process_line_line_buffer)
  then have lb: "line_buffer st1 = last L1" by simp
  have "CHR 0x0A \<notin> set (line_buffer st1)"
    unfolding lb L1_def by (rule last_split_lines_no_newline)
  from Cons.IH[OF this] have
    "fold (process_chunk parse cb) chunks st1 =
       (fold (process_line parse cb) (butlast L2) st1)\<lparr>line_buffer := last L2\<rparr>"
    unfolding lb L2_def .
  moreover have "split_lines (line_buffer st @ concat (c # chunks)) = butlast L1 @ L2"
    using split_lines_append[of "line_buffer st @ c" "concat chunks"]
    by (simp add: L1_def L2_def)
  moreover have "L2 \<noteq> []" unfolding L2_def by (rule split_lines_nonempty)
  ultimately show ?case
    by (simp add: st1_def[symmetric] s1 butlast_append fold_process_line_line_buffer)
qed


lemma streamVoiceResponse_lines:
  "streamVoiceResponse parse cb chunks pb =
     (fold (process_line parse cb) (stream_lines chunks) (stream_start pb))
       \<lparr>line_buffer := last (split_lines (concat chunks))\<rparr>"
proof -
  have "CHR 0x0A \<notin> set (line_buffer (stream_start pb))" by (simp add: stream_start_def)
  from fold_process_chunk[OF this, of parse cb chunks] show ?thesis
    by (simp add: streamVoiceResponse_def stream_lines_def stream_start_def)
qed



lemma worklet_fold:
  "worklet (playback_of st) \<Longrightarrow> worklet (playback_of (fold (process_line parse cb) lines st))"
  by (induction lines arbitrary: st) (simp_all add: worklet_process_line)

lemmas example_defs = example_error_stream_def example_audio_stream_def
  example_bad_audio_stream_def example_error_line_def example_transcript_line_def
  example_audio_line_1_def example_audio_line_0_def example_bad_audio_line_def

text \<open>
  Claim C2 says that no record after an \<^verbatim>\<open>error\<close> record is parsed or dispatched. In the
  stream below the \<^verbatim>\<open>error\<close> record is followed by a \<^verbatim>\<open>transcript\<close> record; the error
  callback is called, and then the transcript callback: the \<^verbatim>\<open>throw\<close> of the \<^verbatim>\<open>error\<close>
  case is caught by the \<^verbatim>\<open>catch\<close> inside the loop over the lines, and the loop goes on.
\<close>

theorem error_record_counterexample:
  "stream_lines example_error_stream = [example_error_line, [], example_transcript_line, []] \<and>
   calls (streamVoiceResponse example_parse all_callbacks example_error_stream playback_new) =
     [OnError (Error ''boom''), OnTranscript ''hi'' ''hi'']"
  by (simp add: stream_defs example_defs stream_lines_def)

text \<open>
  Claim C2 as amended. For a record of type \<^verbatim>\<open>error\<close> the orchestrator calls the caller's
  error callback, if one is given, with an \<^verbatim>\<open>Error\<close> carrying the record's message, and
  changes nothing else; it does not stop: when the record is a line of a stream, the
  lines after it are processed like those of any stream, from the state the callback
  left.
\<close>

theorem error_record_continues:
  "startsWith line ''data: '' \<and> parse (drop 6 line) = Some event \<and> ev_type event = ''error'' \<longrightarrow>
     process_line parse cb line st = call (onError cb) (OnError (Error (ev_error event))) st \<and>
     (stream_lines chunks = before @ line # rest \<longrightarrow>
        streamVoiceResponse parse cb chunks pb =
          (fold (process_line parse cb) rest
             (call (onError cb) (OnError (Error (ev_error event)))
                (fold (process_line parse cb) before (stream_start pb))))
            \<lparr>line_buffer := last (split_lines (concat chunks))\<rparr>)"
  by (simp add: process_line_error streamVoiceResponse_lines)

theorem error_record_continues_witness:
  "startsWith example_error_line ''data: '' \<and>
   ev_type (the (example_parse (drop 6 example_error_line))) = ''error'' \<and>
   stream_lines example_error_stream = [] @ example_error_line # [[], example_transcript_line, []] \<and>
   streamVoiceResponse example_parse all_callbacks example_error_stream playback_new =
     (fold (process_line example_parse all_callbacks) [[], example_transcript_line, []]
        (call True (OnError (Error ''boom'')) (stream_start playback_new)))
       \<lparr>line_buffer := []\<rparr>"
proof -
  have a: "startsWith example_error_line ''data: ''"
    by (simp add: startsWith_def example_defs)
  have b: "example_parse (drop 6 example_error_line) =
      Some \<lparr>ev_type = ''error'', ev_data = [], ev_seq = None, ev_error = ''boom'',
            ev_transcript = []\<rparr>"
    by (simp add: example_parse_def example_defs)
  have c: "stream_lines example_error_stream =
      [] @ example_error_line # [[], example_transcript_line, []]"
    by (simp add: stream_lines_def example_defs)
  have d: "last (split_lines (concat example_error_stream)) = []"
    by (simp add: example_defs)
  from error_record_continues[of example_error_line example_parse
      "\<lparr>ev_type = ''error'', ev_data = [], ev_seq = None, ev_error = ''boom'', ev_transcript = []\<rparr>"
      all_callbacks "stream_start playback_new" example_error_stream "[]"
      "[[], example_transcript_line, []]" playback_new] a b c
  have "streamVoiceResponse example_parse all_callbacks example_error_stream playback_new =
     (fold (process_line example_parse all_callbacks) [[], example_transcript_line, []]
        (call (onError all_callbacks) (OnError (Error ''boom'')) (stream_start playback_new)))
       \<lparr>line_buffer := last (split_lines (concat example_error_stream))\<rparr>"
    by simp
  then show ?thesis using a b c d by (simp add: all_callbacks_def)
qed

lemma post_chunks_decodable:
  "\<forall>c\<in>set chunks. \<exists>samples. decodePCM16ToFloat32 c = Inr samples \<Longrightarrow>
   post_chunks chunks pb =
     (pb\<lparr>posted := posted pb @ map (\<lambda>c. Audio (samples_of c)) chunks\<rparr>, None)"
proof (induction chunks arbitrary: pb)
  case Nil
  then show ?case by simp
next
  case (Cons c chunks)
  then obtain samples where s: "decodePCM16ToFloat32 c = Inr samples" by auto
  have "\<forall>c\<in>set chunks. \<exists>samples. decodePCM16ToFloat32 c = Inr samples"
    using Cons.prems by simp
  from Cons.IH[OF this] show ?case by (simp add: s samples_of_def)
qed

lemma pushSequencedAudio_decodable:
  assumes "worklet pb"
    and "\<forall>c\<in>set (fst (SequenceBuffer_push seq d (seqBuffer pb))).
           \<exists>samples. decodePCM16ToFloat32 c = Inr samples"
  shows "posted (fst (pushSequencedAudio seq d pb)) =
           posted pb @ map (\<lambda>c. Audio (samples_of c)) (fst (SequenceBuffer_push seq d (seqBuffer pb)))"
    and "seqBuffer (fst (pushSequencedAudio seq d pb)) = snd (SequenceBuffer_push seq d (seqBuffer pb))"
    and "worklet (fst (pushSequencedAudio seq d pb))"
  using assms
  by (auto simp: pushSequencedAudio_def post_chunks_decodable split: prod.splits)

lemma pushSequencedAudio_all_decodable:
  "worklet pb \<Longrightarrow>
   \<forall>c\<in>set (fst (push_all xs (seqBuffer pb))). \<exists>samples. decodePCM16ToFloat32 c = Inr samples \<Longrightarrow>
   posted (pushSequencedAudio_all xs pb) =
     posted pb @ map (\<lambda>c. Audio (samples_of c)) (fst (push_all xs (seqBuffer pb)))"
proof (induction xs arbitrary: pb)
  case Nil
  then show ?case by simp
next
  case (Cons x xs)
  obtain seq d where x: "x = (seq, d)" by (cases x)
  define pb1 where "pb1 = fst (pushSequencedAudio seq d pb)"
  have split: "fst (push_all (x # xs) (seqBuffer pb)) =
      fst (SequenceBuffer_push seq d (seqBuffer pb)) @
      fst (push_all xs (snd (SequenceBuffer_push seq d (seqBuffer pb))))"
    by (simp add: x split: prod.splits)
  have r: "\<forall>c\<in>set (fst (SequenceBuffer_push seq d (seqBuffer pb))).
           \<exists>samples. decodePCM16ToFloat32 c = Inr samples"
    using Cons.prems(2) unfolding split by simp
  note p = pushSequencedAudio_decodable[OF Cons.prems(1) r]
  have l: "\<forall>c\<in>set (fst (push_all xs (seqBuffer pb1))). \<exists>samples. decodePCM16ToFloat32 c = Inr samples"
    using Cons.prems(2) unfolding split pb1_def p(2) by simp
  have "worklet pb1" unfolding pb1_def by (rule p(3))
  from Cons.IH[OF this l] show ?case
    unfolding split by (simp add: x pb1_def[symmetric]) (simp add: pb1_def p)
qed

lemma sequenced_permutation:
  assumes "distinct order" "set order = {0..<length ps}"
    and "\<forall>p\<in>set ps. \<exists>samples. decodePCM16ToFloat32 p = Inr samples"
    and "worklet pb" "seqBuffer pb = SequenceBuffer_new"
  shows "posted (pushSequencedAudio_all (map (\<lambda>i. (int i, ps ! i)) order) pb) =
     posted pb @ map (\<lambda>p. Audio (samples_of p)) ps"
proof -
  have e: "fst (push_all (map (\<lambda>i. (int i, ps ! i)) order) (seqBuffer pb)) = ps"
    unfolding assms(5) using assms(1,2) by (rule push_all_permutation)
  show ?thesis
    using pushSequencedAudio_all_decodable[OF assms(4), of "map (\<lambda>i. (int i, ps ! i)) order"]
      assms(3) unfolding e by simp
qed

text \<open>
  Claim C3 says that the orchestrator hands payload and sequence number to the playback
  subsystem and that fragments reach the worklet in sequence order. In the stream below
  the fragment with \<^verbatim>\<open>seq\<close> 1 arrives before the fragment with \<^verbatim>\<open>seq\<close> 0, and the samples
  of fragment 1 are posted to the worklet before those of fragment 0.
\<close>

theorem arrival_order_counterexample:
  "stream_lines example_audio_stream = [example_audio_line_1, [], example_audio_line_0, []] \<and>
   map_option ev_seq (example_parse (drop 6 example_audio_line_1)) = Some (Some 1) \<and>
   map_option ev_seq (example_parse (drop 6 example_audio_line_0)) = Some (Some 0) \<and>
   messages_of_line example_parse example_audio_line_1 = [Audio [1 / 32768]] \<and>
   messages_of_line example_parse example_audio_line_0 = [Audio [1 / 16384]] \<and>
   posted (playback_of (streamVoiceResponse example_parse all_callbacks example_audio_stream
      playback_new)) = [Clear, Audio [1 / 32768], Audio [1 / 16384]]"
  by (simp add: stream_defs example_defs stream_lines_def messages_of_line_def decode_AQA decode_AgA)

text \<open>
  Claim C3 as amended. The orchestrator does not read the sequence number of a record:
  dispatching is the same whatever \<^verbatim>\<open>seq\<close> is, and an \<^verbatim>\<open>audio\<close> record is handed to
  \<^verbatim>\<open>pushAudio\<close> with its payload alone. The messages posted to the worklet are those of
  the lines of the stream, line after line: the fragments that decode are delivered in
  arrival order. Delivery in sequence order is what \<^verbatim>\<open>pushSequencedAudio\<close> gives to a
  caller that uses it, which the orchestrator does not: fragments \<open>0, \<dots>, n - 1\<close> with
  payloads that decode, pushed through it in any order into a fresh sequence buffer, are
  posted in sequence order.
\<close>

theorem audio_in_arrival_order:
  "dispatch cb (event\<lparr>ev_seq := q\<rparr>) st = dispatch cb event st \<and>
   (ev_type event = ''audio'' \<longrightarrow>
      dispatch cb event st =
        (st\<lparr>playback_of := fst (pushAudio (ev_data event) (playback_of st))\<rparr>,
         snd (pushAudio (ev_data event) (playback_of st)))) \<and>
   (worklet (playback_of st) \<longrightarrow>
      posted (playback_of (fold (process_line parse cb) lines st)) =
        posted (playback_of st) @ concat (map (messages_of_line parse) lines)) \<and>
   posted (playback_of (streamVoiceResponse parse cb chunks pb)) =
     posted pb @ [Clear] @ concat (map (messages_of_line parse) (stream_lines chunks)) \<and>
   (distinct order \<and> set order = {0..<length ps} \<and>
    (\<forall>p\<in>set ps. \<exists>samples. decodePCM16ToFloat32 p = Inr samples) \<and>
    worklet pb1 \<and> seqBuffer pb1 = SequenceBuffer_new \<longrightarrow>
      posted (pushSequencedAudio_all (map (\<lambda>i. (int i, ps ! i)) order) pb1) =
        posted pb1 @ map (\<lambda>p. Audio (samples_of p)) ps)"
proof -
  have "posted (playback_of (streamVoiceResponse parse cb chunks pb)) =
      posted (playback_of (stream_start pb)) @
        concat (map (messages_of_line parse) (stream_lines chunks))"
    by (simp add: streamVoiceResponse_lines posted_fold[OF worklet_stream_start])
  moreover have "posted (playback_of (stream_start pb)) = posted pb @ [Clear]"
    by (simp add: stream_start_def playback_clear_def init_def Let_def)
  ultimately show ?thesis
    using posted_fold[of st parse cb lines] sequenced_permutation[of order ps pb1]
    by (simp add: dispatch_def split: prod.splits)
qed

theorem audio_in_arrival_order_witness:
  "ev_type \<lparr>ev_type = ''audio'', ev_data = ''AQA='', ev_seq = Some 1, ev_error = [],
      ev_transcript = []\<rparr> = ''audio'' \<and>
   worklet (playback_of (stream_start playback_new)) \<and>
   posted (playback_of (fold (process_line example_parse all_callbacks)
       [example_audio_line_1, example_audio_line_0] (stream_start playback_new))) =
     [Clear, Audio [1 / 32768], Audio [1 / 16384]] \<and>
   distinct [1, 0::nat] \<and> set [1, 0::nat] = {0..<length [''AgA='', ''AQA='']} \<and>
   decodePCM16ToFloat32 ''AgA='' = Inr [1 / 16384] \<and>
   decodePCM16ToFloat32 ''AQA='' = Inr [1 / 32768] \<and>
   worklet (init playback_new) \<and> seqBuffer (init playback_new) = SequenceBuffer_new \<and>
   posted (pushSequencedAudio_all [(1, ''AQA=''), (0, ''AgA='')] (init playback_new)) =
     [Audio [1 / 16384], Audio [1 / 32768]]"
proof -
  have w: "worklet (playback_of (stream_start playback_new))"
    by (rule worklet_stream_start)
  have m: "messages_of_line example_parse example_audio_line_1 = [Audio [1 / 32768]]"
    "messages_of_line example_parse example_audio_line_0 = [Audio [1 / 16384]]"
    by (simp_all add: messages_of_line_def example_defs example_parse_def startsWith_def
        decode_AQA decode_AgA)
  have p: "posted (playback_of (stream_start playback_new)) = [Clear]"
    by (simp add: stream_start_def playback_clear_def init_def playback_new_def Let_def)
  have o: "distinct [1, 0::nat]" "set [1, 0::nat] = {0..<length [''AgA='', ''AQA='']}"
    by auto
  have d: "\<forall>p\<in>set [''AgA='', ''AQA='']. \<exists>samples. decodePCM16ToFloat32 p = Inr samples"
    by (simp add: decode_AQA decode_AgA)
  have i: "worklet (init playback_new)" "seqBuffer (init playback_new) = SequenceBuffer_new"
    "posted (init playback_new) = []"
    by (simp_all add: init_def playback_new_def)
  note inst = audio_in_arrival_order[where cb = all_callbacks and st = "stream_start playback_new"
      and event = "\<lparr>ev_type = ''audio'', ev_data = ''AQA='', ev_seq = Some 1, ev_error = [],
        ev_transcript = []\<rparr>"
      and parse = example_parse and lines = "[example_audio_line_1, example_audio_line_0]"
      and order = "[1, 0]" and ps = "[''AgA='', ''AQA='']" and ?pb1.0 = "init playback_new"]
  from inst w
  have a: "posted (playback_of (fold (process_line example_parse all_callbacks)
       [example_audio_line_1, example_audio_line_0] (stream_start playback_new))) =
     posted (playback_of (stream_start playback_new)) @
       concat (map (messages_of_line example_parse) [example_audio_line_1, example_audio_line_0])"
    by blast
  from inst o d i(1,2)
  have "posted (pushSequencedAudio_all (map (\<lambda>i. (int i, [''AgA='', ''AQA=''] ! i)) [1, 0])
      (init playback_new)) =
    posted (init playback_new) @ map (\<lambda>p. Audio (samples_of p)) [''AgA='', ''AQA='']"
    by blast
  then have b: "posted (pushSequencedAudio_all [(1, ''AQA=''), (0, ''AgA='')] (init playback_new)) =
     [Audio [1 / 16384], Audio [1 / 32768]]"
    by (simp add: i(3) samples_of_def decode_AQA decode_AgA)
  show ?thesis using w a b o i(1,2) by (simp add: m p decode_AQA decode_AgA)
qed

text \<open>
  Claim C10. When the payload of an \<^verbatim>\<open>audio\<close> record does not decode, the exception is
  not a \<^verbatim>\<open>SyntaxError\<close>; with the worklet set up, as it is throughout a stream, the
  orchestrator calls the caller's error callback, if one is given, with that exception
  and changes nothing else; the lines after the record are processed like those of any
  stream.
\<close>

theorem bad_audio_continues:
  "startsWith line ''data: '' \<and> parse (drop 6 line) = Some event \<and> ev_type event = ''audio'' \<and>
   decodePCM16ToFloat32 (ev_data event) = Inl e \<longrightarrow>
     e \<noteq> SyntaxError \<and>
     (worklet (playback_of st) \<longrightarrow>
        process_line parse cb line st = call (onError cb) (OnError e) st) \<and>
     (stream_lines chunks = before @ line # rest \<longrightarrow>
        streamVoiceResponse parse cb chunks pb =
          (fold (process_line parse cb) rest
             (call (onError cb) (OnError e)
                (fold (process_line parse cb) before (stream_start pb))))
            \<lparr>line_buffer := last (split_lines (concat chunks))\<rparr>)"
proof (intro impI conjI)
  assume h: "startsWith line ''data: '' \<and> parse (drop 6 line) = Some event \<and>
    ev_type event = ''audio'' \<and> decodePCM16ToFloat32 (ev_data event) = Inl e"
  show "e \<noteq> SyntaxError" using h decode_error_cases[of "ev_data event" e] by auto
  show "process_line parse cb line st = call (onError cb) (OnError e) st"
    if "worklet (playback_of st)"
    using h that by (simp add: process_line_bad_audio)
  assume l: "stream_lines chunks = before @ line # rest"
  have "worklet (playback_of (fold (process_line parse cb) before (stream_start pb)))"
    using worklet_stream_start by (rule worklet_fold)
  then have "process_line parse cb line (fold (process_line parse cb) before (stream_start pb)) =
      call (onError cb) (OnError e) (fold (process_line parse cb) before (stream_start pb))"
    using h by (simp add: process_line_bad_audio)
  then show "streamVoiceResponse parse cb chunks pb =
          (fold (process_line parse cb) rest
             (call (onError cb) (OnError e)
                (fold (process_line parse cb) before (stream_start pb))))
            \<lparr>line_buffer := last (split_lines (concat chunks))\<rparr>"
    by (simp add: streamVoiceResponse_lines l)
qed

theorem bad_audio_continues_witness:
  "startsWith example_bad_audio_line ''data: '' \<and>
   map_option ev_type (example_parse (drop 6 example_bad_audio_line)) = Some ''audio'' \<and>
   decodePCM16ToFloat32 ''AAAA'' = Inl RangeError \<and>
   worklet (playback_of (stream_start playback_new)) \<and>
   process_line example_parse all_callbacks example_bad_audio_line (stream_start playback_new) =
     call True (OnError RangeError) (stream_start playback_new) \<and>
   stream_lines example_bad_audio_stream =
     [] @ example_bad_audio_line # [[], example_transcript_line, []] \<and>
   streamVoiceResponse example_parse all_callbacks example_bad_audio_stream playback_new =
     (fold (process_line example_parse all_callbacks) [[], example_transcript_line, []]
        (call True (OnError RangeError) (stream_start playback_new)))
       \<lparr>line_buffer := []\<rparr> \<and>
   calls (streamVoiceResponse example_parse all_callbacks example_bad_audio_stream playback_new) =
     [OnError RangeError, OnTranscript ''hi'' ''hi'']"
proof -
  have a: "startsWith example_bad_audio_line ''data: ''"
    by (simp add: startsWith_def example_defs)
  have b: "example_parse (drop 6 example_bad_audio_line) =
      Some \<lparr>ev_type = ''audio'', ev_data = ''AAAA'', ev_seq = None, ev_error = [],
            ev_transcript = []\<rparr>"
    by (simp add: example_parse_def example_defs)
  have c: "stream_lines example_bad_audio_stream =
      [] @ example_bad_audio_line # [[], example_transcript_line, []]"
    by (simp add: stream_lines_def example_defs)
  have d: "last (split_lines (concat example_bad_audio_stream)) = []"
    by (simp add: example_defs)
  have w: "worklet (playback_of (stream_start playback_new))"
    by (rule worklet_stream_start)
  note inst = bad_audio_continues[of example_bad_audio_line example_parse
      "\<lparr>ev_type = ''audio'', ev_data = ''AAAA'', ev_seq = None, ev_error = [], ev_transcript = []\<rparr>"
      RangeError "stream_start playback_new" all_callbacks example_bad_audio_stream "[]"
      "[[], example_transcript_line, []]" playback_new]
  from inst a b w decode_AAAA
  have g: "process_line example_parse all_callbacks example_bad_audio_line (stream_start playback_new) =
     call (onError all_callbacks) (OnError RangeError) (stream_start playback_new)"
    by simp
  from inst a b c decode_AAAA
  have e: "streamVoiceResponse example_parse all_callbacks example_bad_audio_stream playback_new =
     (fold (process_line example_parse all_callbacks) [[], example_transcript_line, []]
        (call (onError all_callbacks) (OnError RangeError) (stream_start playback_new)))
       \<lparr>line_buffer := last (split_lines (concat example_bad_audio_stream))\<rparr>"
    by simp
  have f: "calls ((fold (process_line example_parse all_callbacks) [[], example_transcript_line, []]
        (call (onError all_callbacks) (OnError RangeError) (stream_start playback_new)))
       \<lparr>line_buffer := last (split_lines (concat example_bad_audio_stream))\<rparr>) =
     [OnError RangeError, OnTranscript ''hi'' ''hi'']"
    by (simp add: stream_defs example_defs)
  show ?thesis using a b c d e f g w decode_AAAA by (simp add: all_callbacks_def)
qed

end
